theory Spec2Isabelle
  imports Main "HOL-Library.List_Lexorder" "HOL-Library.AList"
begin

section \<open>Strings\<close>

text \<open>
  A Python \<open>str\<close> is a sequence of Unicode code points, and every length, index and
  comparison of \<open>hooks/turkish-check.py\<close> counts code points. A character is a code point
  (a natural number), a string a list of them. Six of the twelve Turkish letters lie above
  U+00FF, so bytes would not do.

  \<open>u\<close> writes an ASCII literal; the letters with diacritics are written as numbers:
  \<open>231\<close> c-cedilla, \<open>199\<close> C-cedilla, \<open>287\<close> g-breve, \<open>286\<close> G-breve, \<open>305\<close> dotless i,
  \<open>304\<close> dotted I, \<open>246\<close> o-diaeresis, \<open>214\<close> O-diaeresis, \<open>351\<close> s-cedilla, \<open>350\<close> S-cedilla,
  \<open>252\<close> u-diaeresis, \<open>220\<close> U-diaeresis.
\<close>

type_synonym ustr = "nat list"

definition u :: "string \<Rightarrow> ustr" where
  "u s = map of_char s"

text \<open>
  \<open>str.lower()\<close>. The table is Unicode's for Basic Latin, Latin-1 Supplement and Latin
  Extended-A (every code point up to U+017F, which holds all letters of Turkish); a code
  point above U+017F is left as it is. Dotted capital I (304) is the one letter whose
  lower case is two code points: \<open>i\<close> followed by the combining dot above (775).
\<close>

definition lower_cp :: "nat \<Rightarrow> nat list" where
  "lower_cp c =
     (if 65 \<le> c \<and> c \<le> 90 then [c + 32]
      else if 192 \<le> c \<and> c \<le> 222 \<and> c \<noteq> 215 then [c + 32]
      else if c = 304 then [105, 775]
      else if c = 376 then [255]
      else if (256 \<le> c \<and> c \<le> 303 \<or> 306 \<le> c \<and> c \<le> 311 \<or> 330 \<le> c \<and> c \<le> 375) \<and> even c
        then [c + 1]
      else if (313 \<le> c \<and> c \<le> 328 \<or> 377 \<le> c \<and> c \<le> 382) \<and> odd c then [c + 1]
      else [c])"

definition lower :: "ustr \<Rightarrow> ustr" where
  "lower s = concat (map lower_cp s)"

section \<open>The diacritic model\<close>

text \<open>\<open>DIACRITICS_MAP\<close>: each Turkish letter with a diacritic and its ASCII letter.\<close>

definition DIACRITICS_MAP :: "nat \<rightharpoonup> nat" where
  "DIACRITICS_MAP = map_of
     [(231, 99), (199, 67), (287, 103), (286, 71), (305, 105), (304, 73),
      (246, 111), (214, 79), (351, 115), (350, 83), (252, 117), (220, 85)]"

text \<open>\<open>SWAP_MAP\<close>: each ASCII letter that has a counterpart, and its counterparts.\<close>

definition SWAP_MAP :: "nat \<rightharpoonup> nat list" where
  "SWAP_MAP = map_of
     [(99, [231]), (103, [287]), (105, [305]), (111, [246]), (115, [351]), (117, [252]),
      (67, [199]), (71, [286]), (73, [304]), (79, [214]), (83, [350]), (85, [220])]"

definition ascii_fold :: "ustr \<Rightarrow> ustr" where
  "ascii_fold s = map (\<lambda>c. case DIACRITICS_MAP c of Some a \<Rightarrow> a | None \<Rightarrow> c) s"

definition count_diacritics :: "ustr \<Rightarrow> nat" where
  "count_diacritics s = length (filter (\<lambda>c. DIACRITICS_MAP c \<noteq> None) s)"

text \<open>\<open>any(c in SWAP_MAP for c in word)\<close>, used by \<open>generate_variants\<close> and by Layer 3.\<close>

definition any_swap :: "ustr \<Rightarrow> bool" where
  "any_swap word = (\<exists>c \<in> set word. SWAP_MAP c \<noteq> None)"

section \<open>Layer 1: the oracle's suggestions\<close>

text \<open>
  \<open>layer1_suggestion\<close>: the loop over the suggestions returns at the first one that passes
  both tests, and \<open>None\<close> when the list is exhausted.
\<close>

fun layer1_loop :: "ustr \<Rightarrow> ustr \<Rightarrow> nat \<Rightarrow> ustr list \<Rightarrow> ustr option" where
  "layer1_loop word folded word_dc [] = None"
| "layer1_loop word folded word_dc (s # suggestions) =
     (if lower (ascii_fold s) = folded \<and> lower s \<noteq> lower word
      then (if count_diacritics s > word_dc then Some s
            else layer1_loop word folded word_dc suggestions)
      else layer1_loop word folded word_dc suggestions)"

definition layer1_suggestion :: "ustr \<Rightarrow> ustr list \<Rightarrow> ustr option" where
  "layer1_suggestion word suggestions =
     (let folded = lower (ascii_fold word);
          word_dc = count_diacritics word
      in layer1_loop word folded word_dc suggestions)"

section \<open>Layer 2: the variants of a word\<close>

text \<open>
  \<open>itertools.product\<close> of a list of option lists, in the order Python yields the tuples:
  the last position varies fastest.
\<close>

fun itertools_product :: "'a list list \<Rightarrow> 'a list list" where
  "itertools_product [] = [[]]"
| "itertools_product (opts # rest) =
     concat (map (\<lambda>x. map ((#) x) (itertools_product rest)) opts)"

text \<open>
  The options at each position of the word: the letter itself, followed by its
  counterparts when it has any. The source pairs each with its index, which it never
  reads again; the index is kept.
\<close>

definition positions :: "ustr \<Rightarrow> (nat \<times> nat list) list" where
  "positions word =
     map (\<lambda>(i, c). case SWAP_MAP c of Some sw \<Rightarrow> (i, [c] @ sw) | None \<Rightarrow> (i, [c]))
       (enumerate 0 word)"

text \<open>
  The enumeration loop with its counter: the original word is passed over without being
  counted, the loop breaks when the counter passes 64, and a candidate is kept when it
  has more diacritics than the word.
\<close>

fun variants_loop :: "ustr \<Rightarrow> nat \<Rightarrow> ustr list \<Rightarrow> nat \<Rightarrow> ustr list \<Rightarrow> ustr list" where
  "variants_loop word word_dc [] count variants = variants"
| "variants_loop word word_dc (candidate # combos) count variants =
     (if candidate = word then variants_loop word word_dc combos count variants
      else if count + 1 > 64 then variants
      else if count_diacritics candidate > word_dc
        then variants_loop word word_dc combos (count + 1) (variants @ [candidate])
      else variants_loop word word_dc combos (count + 1) variants)"

definition generate_variants :: "ustr \<Rightarrow> ustr list" where
  "generate_variants word =
     (if \<not> any_swap word then []
      else
        let pos = positions word;
            swappable = length (filter (\<lambda>(_, opts). length opts > 1) pos)
        in if swappable > 6 then []
           else variants_loop word (count_diacritics word)
                  (itertools_product (map snd pos)) 0 [])"

section \<open>Regular expressions\<close>

text \<open>
  The patterns of the program, as syntax trees, and a backtracking matcher that tries the
  alternatives in the order Python's \<open>re\<close> does. Every quantifier of the program's patterns
  stands on a single character class, so that is what \<open>Many\<close> (greedy \<open>*\<close>) and \<open>Few\<close>
  (lazy \<open>*?\<close>) repeat. \<open>Bos\<close> is \<open>^\<close> without \<open>re.MULTILINE\<close>, \<open>Bol\<close> and \<open>Eol\<close> are
  \<open>^\<close> and \<open>$\<close> with it, \<open>Wordb\<close> is \<open>\b\<close>, and \<open>Grp\<close> is capture group 1.
\<close>

datatype regex =
    Eps
  | Cls "nat \<Rightarrow> bool"
  | Seq regex regex
  | Alt regex regex
  | Many "nat \<Rightarrow> bool"
  | Few "nat \<Rightarrow> bool"
  | Bos
  | Bol
  | Eol
  | Wordb
  | Grp regex

text \<open>
  \<open>str.isspace\<close>, which is also the class \<open>\s\<close> of a \<open>str\<close> pattern: the ASCII white
  space, the four separators U+001C to U+001F, NEL, the no-break space, and the spaces of
  the General Punctuation and CJK blocks.
\<close>

definition is_space :: "nat \<Rightarrow> bool" where
  "is_space c =
     (9 \<le> c \<and> c \<le> 13 \<or> 28 \<le> c \<and> c \<le> 32 \<or> c = 133 \<or> c = 160 \<or> c = 5760 \<or>
      8192 \<le> c \<and> c \<le> 8202 \<or> c = 8232 \<or> c = 8233 \<or> c = 8239 \<or> c = 8287 \<or> c = 12288)"

text \<open>
  The class \<open>\w\<close> of a \<open>str\<close> pattern (alphanumeric, or the underscore), which decides
  \<open>\b\<close>. The table is Unicode's up to U+017F: digits, letters, the underscore, the
  ordinal indicators, the micro sign, the superscript digits and the vulgar fractions of
  Latin-1, its letters (all of U+00C0 to U+00FF but the two operators 215 and 247), and
  Latin Extended-A. A code point above U+017F counts as no word character: that is right
  for the typographic quotes, dashes and spaces of running text, and wrong for the
  letters of other scripts, which the model does not cover.
\<close>

definition is_word :: "nat \<Rightarrow> bool" where
  "is_word c =
     (48 \<le> c \<and> c \<le> 57 \<or> 65 \<le> c \<and> c \<le> 90 \<or> c = 95 \<or> 97 \<le> c \<and> c \<le> 122 \<or>
      c = 170 \<or> c = 178 \<or> c = 179 \<or> c = 181 \<or> c = 185 \<or> c = 186 \<or>
      188 \<le> c \<and> c \<le> 190 \<or> 192 \<le> c \<and> c \<le> 383 \<and> c \<noteq> 215 \<and> c \<noteq> 247)"

text \<open>
  A matcher state is the position reached in the subject string and the span of group 1,
  if the group has matched. \<open>step r s st\<close> lists the states in which a match of \<open>r\<close>
  begun in \<open>st\<close> can end, in the order backtracking visits them: the first is the match
  Python reports when nothing follows \<open>r\<close>.
\<close>

type_synonym mstate = "nat \<times> (nat \<times> nat) option"

definition run_length :: "(nat \<Rightarrow> bool) \<Rightarrow> ustr \<Rightarrow> nat \<Rightarrow> nat" where
  "run_length P s p = length (takeWhile P (drop p s))"

primrec step :: "regex \<Rightarrow> ustr \<Rightarrow> mstate \<Rightarrow> mstate list" where
  "step Eps s st = [st]"
| "step (Cls P) s st =
     (if fst st < length s \<and> P (s ! fst st) then [(fst st + 1, snd st)] else [])"
| "step (Seq a b) s st = concat (map (step b s) (step a s st))"
| "step (Alt a b) s st = step a s st @ step b s st"
| "step (Many P) s st =
     map (\<lambda>k. (fst st + k, snd st)) (rev [0 ..< run_length P s (fst st) + 1])"
| "step (Few P) s st =
     map (\<lambda>k. (fst st + k, snd st)) [0 ..< run_length P s (fst st) + 1]"
| "step Bos s st = (if fst st = 0 then [st] else [])"
| "step Bol s st = (if fst st = 0 \<or> s ! (fst st - 1) = 10 then [st] else [])"
| "step Eol s st = (if fst st \<ge> length s \<or> s ! fst st = 10 then [st] else [])"
| "step Wordb s st =
     (if (fst st > 0 \<and> fst st - 1 < length s \<and> is_word (s ! (fst st - 1)))
         \<noteq> (fst st < length s \<and> is_word (s ! fst st))
      then [st] else [])"
| "step (Grp a) s st = map (\<lambda>(e, g). (e, Some (fst st, e))) (step a s st)"

text \<open>Shorthands for writing the patterns.\<close>

definition lit :: "ustr \<Rightarrow> regex" where
  "lit t = foldr (\<lambda>c r. Seq (Cls (\<lambda>x. x = c)) r) t Eps"

definition seqs :: "regex list \<Rightarrow> regex" where
  "seqs rs = foldr Seq rs Eps"

definition many1 :: "(nat \<Rightarrow> bool) \<Rightarrow> regex" where
  "many1 P = Seq (Cls P) (Many P)"

definition opt :: "regex \<Rightarrow> regex" where
  "opt r = Alt r Eps"

definition one_to_three :: "(nat \<Rightarrow> bool) \<Rightarrow> regex" where
  "one_to_three P = Seq (Cls P) (opt (Seq (Cls P) (opt (Cls P))))"

definition slice :: "ustr \<Rightarrow> nat \<Rightarrow> nat \<Rightarrow> ustr" where
  "slice s a b = take (b - a) (drop a s)"

text \<open>
  \<open>Pattern.fullmatch\<close>: some way of matching from the start ends at the end.
\<close>

definition fullmatch :: "regex \<Rightarrow> ustr \<Rightarrow> bool" where
  "fullmatch r s = (\<exists>st \<in> set (step r s (0, None)). fst st = length s)"

text \<open>
  The replacement of \<open>re.sub\<close>: the callback \<open>_blank\<close> of \<open>strip_non_prose\<close> (as many
  newlines as the match holds), a constant string, or the template \<open>\1\<close>.
\<close>

datatype repl = Blank | Const ustr | Group1

definition expand :: "repl \<Rightarrow> ustr \<Rightarrow> nat \<Rightarrow> mstate \<Rightarrow> ustr" where
  "expand rp s i st =
     (case rp of
        Blank \<Rightarrow> replicate (length (filter (\<lambda>c. c = 10) (slice s i (fst st)))) 10
      | Const t \<Rightarrow> t
      | Group1 \<Rightarrow> (case snd st of Some (a, b) \<Rightarrow> slice s a b | None \<Rightarrow> []))"

text \<open>
  \<open>re.sub(pattern, repl, string, count)\<close>: scan from the left; where the pattern matches,
  emit the replacement and go on behind the match; elsewhere copy the character.
  \<open>count = 0\<close> replaces every match, as in Python. \<open>n\<close> counts the replacements made.
  No pattern of the program matches the empty string; were one to, the replacement is
  emitted and the scan moves one character on.
\<close>

function sub_loop :: "regex \<Rightarrow> repl \<Rightarrow> ustr \<Rightarrow> nat \<Rightarrow> nat \<Rightarrow> nat \<Rightarrow> ustr" where
  "sub_loop r rp s count n i =
     (if i > length s then []
      else if count \<noteq> 0 \<and> n \<ge> count then drop i s
      else case step r s (i, None) of
             [] \<Rightarrow> (if i < length s then s ! i # sub_loop r rp s count n (i + 1) else [])
           | st # _ \<Rightarrow>
               if fst st \<le> i
               then expand rp s i st @
                    (if i < length s then s ! i # sub_loop r rp s count (n + 1) (i + 1) else [])
               else expand rp s i st @ sub_loop r rp s count (n + 1) (fst st))"
  by pat_completeness auto
termination
  by (relation "measure (\<lambda>(r, rp, s, count, n, i). length s + 1 - i)") auto

definition re_sub :: "regex \<Rightarrow> repl \<Rightarrow> ustr \<Rightarrow> nat \<Rightarrow> ustr" where
  "re_sub r rp s count = sub_loop r rp s count 0 0"

text \<open>
  \<open>re.findall\<close> for a pattern without groups: the matched substrings, left to right,
  without overlap.
\<close>

function findall_loop :: "regex \<Rightarrow> ustr \<Rightarrow> nat \<Rightarrow> ustr list" where
  "findall_loop r s i =
     (if i > length s then []
      else case step r s (i, None) of
             [] \<Rightarrow> (if i < length s then findall_loop r s (i + 1) else [])
           | st # _ \<Rightarrow>
               if fst st \<le> i
               then slice s i (fst st) # (if i < length s then findall_loop r s (i + 1) else [])
               else slice s i (fst st) # findall_loop r s (fst st))"
  by pat_completeness auto
termination
  by (relation "measure (\<lambda>(r, s, i). length s + 1 - i)") auto

definition findall :: "regex \<Rightarrow> ustr \<Rightarrow> ustr list" where
  "findall r s = findall_loop r s 0"

section \<open>The prose extractor\<close>

text \<open>The fifteen patterns of \<open>strip_non_prose\<close>, in the order of the source.\<close>

definition any_char :: "nat \<Rightarrow> bool" where
  "any_char c = True"

definition not_char :: "string \<Rightarrow> nat \<Rightarrow> bool" where
  "not_char t c = (c \<notin> set (u t))"

definition RE_FRONT_MATTER :: regex where
  \<comment> \<open>\<^verbatim>\<open>^---\n.*?\n---\n\<close> with \<open>re.DOTALL\<close>\<close>
  "RE_FRONT_MATTER = seqs [Bos, lit (u ''---'' @ [10]), Few any_char, lit ([10] @ u ''---'' @ [10])]"

definition RE_FENCE_BACKTICK :: regex where
  \<comment> \<open>\<^verbatim>\<open>```[\s\S]*?```\<close>\<close>
  "RE_FENCE_BACKTICK = seqs [lit (u ''```''), Few any_char, lit (u ''```'')]"

definition RE_FENCE_TILDE :: regex where
  \<comment> \<open>\<^verbatim>\<open>~~~[\s\S]*?~~~\<close>\<close>
  "RE_FENCE_TILDE = seqs [lit (u ''~~~''), Few any_char, lit (u ''~~~'')]"

definition RE_INLINE_CODE :: regex where
  \<comment> \<open>\<^verbatim>\<open>`[^`]+`\<close>\<close>
  "RE_INLINE_CODE = seqs [lit (u ''`''), many1 (not_char ''`''), lit (u ''`'')]"

definition RE_IMPORT_EXPORT :: regex where
  \<comment> \<open>\<^verbatim>\<open>^(?:import|export)\s+.*$\<close> with \<open>re.MULTILINE\<close>\<close>
  "RE_IMPORT_EXPORT =
     seqs [Bol, Alt (lit (u ''import'')) (lit (u ''export'')), many1 is_space,
           Many (\<lambda>c. c \<noteq> 10), Eol]"

definition RE_TAG :: regex where
  \<comment> \<open>\<^verbatim>\<open><[^>]+>\<close>\<close>
  "RE_TAG = seqs [lit (u ''<''), many1 (not_char ''>''), lit (u ''>'')]"

definition RE_BRACES :: regex where
  \<comment> \<open>\<^verbatim>\<open>\{[^}]*\}\<close>\<close>
  "RE_BRACES = seqs [lit (u ''{''), Many (not_char ''}''), lit (u ''}'')]"

definition RE_URL :: regex where
  \<comment> \<open>\<^verbatim>\<open>https?://\S+\<close>\<close>
  "RE_URL = seqs [lit (u ''http''), opt (lit (u ''s'')), lit (u ''://''),
                  many1 (\<lambda>c. \<not> is_space c)]"

definition RE_IMAGE :: regex where
  \<comment> \<open>\<^verbatim>\<open>!\[[^\]]*\]\([^)]+\)\<close>\<close>
  "RE_IMAGE = seqs [lit (u ''!''), lit (u ''[''), Many (not_char '']''), lit (u '']''),
                    lit (u ''(''), many1 (not_char '')''), lit (u '')'')]"

definition RE_LINK :: regex where
  \<comment> \<open>\<^verbatim>\<open>\[([^\]]*)\]\([^)]+\)\<close>\<close>
  "RE_LINK = seqs [lit (u ''[''), Grp (Many (not_char '']'')), lit (u '']''),
                   lit (u ''(''), many1 (not_char '')''), lit (u '')'')]"

definition RE_FOOTNOTE :: regex where
  \<comment> \<open>\<^verbatim>\<open>\[\^[^\]]+\]\<close>\<close>
  "RE_FOOTNOTE = seqs [lit (u ''[^''), many1 (not_char '']''), lit (u '']'')]"

definition RE_BDI_VAR :: regex where
  \<comment> \<open>\<^verbatim>\<open>\[/?(?:bdi|var)\]\<close>\<close>
  "RE_BDI_VAR = seqs [lit (u ''[''), opt (lit (u ''/'')),
                      Alt (lit (u ''bdi'')) (lit (u ''var'')), lit (u '']'')]"

definition RE_COMMENT :: regex where
  \<comment> \<open>\<^verbatim>\<open><!--.*?-->\<close> with \<open>re.DOTALL\<close>\<close>
  "RE_COMMENT = seqs [lit (u ''<!--''), Few any_char, lit (u ''-->'')]"

definition RE_HEADING :: regex where
  \<comment> \<open>\<^verbatim>\<open>^#+\s*\<close> with \<open>re.MULTILINE\<close>\<close>
  "RE_HEADING = seqs [Bol, many1 (\<lambda>c. c = 35), Many is_space]"

definition RE_EMPHASIS :: regex where
  \<comment> \<open>\<^verbatim>\<open>\*{1,3}|_{1,3}\<close>\<close>
  "RE_EMPHASIS = Alt (one_to_three (\<lambda>c. c = 42)) (one_to_three (\<lambda>c. c = 95))"

text \<open>
  \<open>strip_non_prose\<close>: the fifteen substitutions in sequence. Four replace a match by its
  newlines (\<open>_blank\<close>), eight by one space, one by its group 1, two by nothing.
\<close>

definition strip_non_prose :: "ustr \<Rightarrow> ustr" where
  "strip_non_prose text0 =
     (let text = re_sub RE_FRONT_MATTER Blank text0 1;
          text = re_sub RE_FENCE_BACKTICK Blank text 0;
          text = re_sub RE_FENCE_TILDE Blank text 0;
          text = re_sub RE_INLINE_CODE (Const (u '' '')) text 0;
          text = re_sub RE_IMPORT_EXPORT (Const (u '' '')) text 0;
          text = re_sub RE_TAG (Const (u '' '')) text 0;
          text = re_sub RE_BRACES (Const (u '' '')) text 0;
          text = re_sub RE_URL (Const (u '' '')) text 0;
          text = re_sub RE_IMAGE (Const (u '' '')) text 0;
          text = re_sub RE_LINK Group1 text 0;
          text = re_sub RE_FOOTNOTE (Const (u '' '')) text 0;
          text = re_sub RE_BDI_VAR (Const (u '' '')) text 0;
          text = re_sub RE_COMMENT Blank text 0;
          text = re_sub RE_HEADING (Const []) text 0;
          text = re_sub RE_EMPHASIS (Const []) text 0
      in text)"

text \<open>
  \<open>str.splitlines\<close>: the line boundaries are LF, CR, CR LF, VT, FF, FS, GS, RS, NEL, and
  the line and paragraph separators U+2028 and U+2029. A boundary at the very end opens
  no further line.
\<close>

definition is_linebreak :: "nat \<Rightarrow> bool" where
  "is_linebreak c =
     (10 \<le> c \<and> c \<le> 13 \<or> 28 \<le> c \<and> c \<le> 30 \<or> c = 133 \<or> c = 8232 \<or> c = 8233)"

fun splitlines_loop :: "ustr \<Rightarrow> ustr \<Rightarrow> ustr list" where
  "splitlines_loop [] cur = (if cur = [] then [] else [cur])"
| "splitlines_loop (c # cs) cur =
     (if c = 13 \<and> cs \<noteq> [] \<and> hd cs = 10 then cur # splitlines_loop (tl cs) []
      else if is_linebreak c then cur # splitlines_loop cs []
      else splitlines_loop cs (cur @ [c]))"

definition splitlines :: "ustr \<Rightarrow> ustr list" where
  "splitlines s = splitlines_loop s []"

section \<open>The word index and the identifier filter\<close>

text \<open>The letters of the tokenizer's class \<^verbatim>\<open>[a-zA-Z...]\<close>: ASCII and the twelve Turkish letters.\<close>

definition is_lower_az :: "nat \<Rightarrow> bool" where
  "is_lower_az c = (97 \<le> c \<and> c \<le> 122)"

definition is_upper_az :: "nat \<Rightarrow> bool" where
  "is_upper_az c = (65 \<le> c \<and> c \<le> 90)"

definition is_az :: "nat \<Rightarrow> bool" where
  "is_az c = (is_lower_az c \<or> is_upper_az c)"

definition is_letter :: "nat \<Rightarrow> bool" where
  "is_letter c = (is_az c \<or> c \<in> {231, 287, 305, 246, 351, 252, 199, 286, 304, 214, 350, 220})"

definition RE_WORD :: regex where
  \<comment> \<open>\<^verbatim>\<open>\b[a-zA-Z...]+\b\<close>, the pattern of the \<open>findall\<close> in \<open>main\<close>\<close>
  "RE_WORD = seqs [Wordb, many1 is_letter, Wordb]"

text \<open>The four alternatives of \<open>RE_IDENTIFIER\<close>, in the order of the source.\<close>

definition RE_CAMEL :: regex where
  \<comment> \<open>\<^verbatim>\<open>[a-zA-Z]+[A-Z][a-zA-Z]*\<close>\<close>
  "RE_CAMEL = seqs [many1 is_az, Cls is_upper_az, Many is_az]"

definition RE_SNAKE :: regex where
  \<comment> \<open>\<^verbatim>\<open>[a-zA-Z]+_[a-zA-Z_]+\<close>\<close>
  "RE_SNAKE = seqs [many1 is_az, Cls (\<lambda>c. c = 95), many1 (\<lambda>c. is_az c \<or> c = 95)]"

definition RE_CAPS :: regex where
  \<comment> \<open>\<^verbatim>\<open>[A-Z]{2,}\<close>\<close>
  "RE_CAPS = seqs [Cls is_upper_az, Cls is_upper_az, Many is_upper_az]"

definition RE_KEBAB :: regex where
  \<comment> \<open>\<^verbatim>\<open>[a-zA-Z]+-[a-zA-Z-]+\<close>\<close>
  "RE_KEBAB = seqs [many1 is_az, Cls (\<lambda>c. c = 45), many1 (\<lambda>c. is_az c \<or> c = 45)]"

definition RE_IDENTIFIER :: regex where
  "RE_IDENTIFIER = Alt RE_CAMEL (Alt RE_SNAKE (Alt RE_CAPS RE_KEBAB))"

definition is_identifier :: "ustr \<Rightarrow> bool" where
  "is_identifier word = fullmatch RE_IDENTIFIER word"

text \<open>
  A Python \<open>dict\<close> that the program iterates is an association list in insertion order:
  \<open>AList.update\<close> overwrites the value of a key in place and appends a new key at the
  end, as an assignment \<open>d[k] = v\<close> does. \<open>get_list d k\<close> is \<open>d.get(k, [])\<close>.
\<close>

definition get_list :: "('k \<times> 'v list) list \<Rightarrow> 'k \<Rightarrow> 'v list" where
  "get_list d k = (case map_of d k of Some vs \<Rightarrow> vs | None \<Rightarrow> [])"

text \<open>
  Layer 0 of \<open>main\<close>: the words of each line, with the numbers of the lines they stand
  on. \<open>word_locations.setdefault(word, []).append(line_num)\<close> is an update of the entry.
\<close>

fun index_line :: "nat \<Rightarrow> ustr list \<Rightarrow> (ustr \<times> nat list) list \<Rightarrow> (ustr \<times> nat list) list" where
  "index_line line_num [] word_locations = word_locations"
| "index_line line_num (word # ws) word_locations =
     (if length word < 2 then index_line line_num ws word_locations
      else index_line line_num ws
             (AList.update word (get_list word_locations word @ [line_num]) word_locations))"

fun index_lines :: "nat \<Rightarrow> ustr list \<Rightarrow> (ustr \<times> nat list) list \<Rightarrow> (ustr \<times> nat list) list" where
  "index_lines line_num [] word_locations = word_locations"
| "index_lines line_num (line # ls) word_locations =
     index_lines (line_num + 1) ls (index_line line_num (findall RE_WORD line) word_locations)"

definition word_index :: "ustr \<Rightarrow> (ustr \<times> nat list) list" where
  "word_index prose = index_lines 1 (splitlines prose) []"

section \<open>The spell checker\<close>

text \<open>
  The exceptions the program can raise and does not catch. An uncaught exception ends
  the interpreter with a traceback on standard error and exit status 1.
\<close>

datatype py_error =
  AttributeError | TypeError | IndexError | KeyError | ValueError | OSError | UnicodeDecodeError

text \<open>
  \<open>subprocess.run\<close> of hunspell is the one effect of the pipeline. The two command lines
  differ in their mode flag, \<open>-a\<close> or \<open>-l\<close>. What the process answers is a parameter:
  \<open>None\<close> when \<open>run\<close> raises \<open>TimeoutExpired\<close> or \<open>FileNotFoundError\<close>, which both
  callers catch, and the text of standard output otherwise. Every call is logged with its
  mode and its input.
\<close>

datatype hunspell_mode = Mode_a | Mode_l

type_synonym call = "hunspell_mode \<times> ustr"

type_synonym hunspell = "hunspell_mode \<Rightarrow> ustr \<Rightarrow> ustr option"

text \<open>String methods used on the answers.\<close>

definition join :: "ustr \<Rightarrow> ustr list \<Rightarrow> ustr" where
  \<comment> \<open>\<open>sep.join(xs)\<close>\<close>
  "join sep xs = (case xs of [] \<Rightarrow> [] | x # rest \<Rightarrow> x @ concat (map (\<lambda>y. sep @ y) rest))"

definition strip :: "ustr \<Rightarrow> ustr" where
  \<comment> \<open>\<open>s.strip()\<close>\<close>
  "strip s = rev (dropWhile is_space (rev (dropWhile is_space s)))"

fun split_on_loop :: "nat \<Rightarrow> ustr \<Rightarrow> ustr \<Rightarrow> ustr list" where
  "split_on_loop sep [] cur = [cur]"
| "split_on_loop sep (c # cs) cur =
     (if c = sep then cur # split_on_loop sep cs [] else split_on_loop sep cs (cur @ [c]))"

definition split_on :: "nat \<Rightarrow> ustr \<Rightarrow> ustr list" where
  \<comment> \<open>\<open>s.split(sep)\<close> for a separator of one character\<close>
  "split_on sep s = split_on_loop sep s []"

definition split_first :: "nat \<Rightarrow> ustr \<Rightarrow> ustr \<times> ustr option" where
  \<comment> \<open>\<open>s.split(sep, 1)\<close>: the part before the first separator, and the part behind it if there is one\<close>
  "split_first sep s =
     (takeWhile (\<lambda>c. c \<noteq> sep) s,
      if sep \<in> set s then Some (tl (dropWhile (\<lambda>c. c \<noteq> sep) s)) else None)"

fun split_ws_loop :: "ustr \<Rightarrow> ustr \<Rightarrow> ustr list" where
  "split_ws_loop [] cur = (if cur = [] then [] else [cur])"
| "split_ws_loop (c # cs) cur =
     (if is_space c then (if cur = [] then split_ws_loop cs [] else cur # split_ws_loop cs [])
      else split_ws_loop cs (cur @ [c]))"

definition split_ws :: "ustr \<Rightarrow> ustr list" where
  \<comment> \<open>\<open>s.split()\<close>: the runs of characters that are no white space\<close>
  "split_ws s = split_ws_loop s []"

text \<open>
  The loop of \<open>hunspell_check_text\<close> over the lines of the answer. On a line that starts
  with \<open>&\<close> the word is \<open>parts[0].split()[1]\<close>, which raises \<open>IndexError\<close> when the part
  before the colon has fewer than two tokens; the line that starts with \<open>#\<close> guards the
  same index.
\<close>

fun check_loop :: "ustr list \<Rightarrow> (ustr \<times> ustr list) list \<Rightarrow> py_error + (ustr \<times> ustr list) list" where
  "check_loop [] results = Inr results"
| "check_loop (line # ls) results =
     (if take 1 line = u ''&'' then
        (case split_first 58 line of
           (part0, part1) \<Rightarrow>
             (case split_ws part0 of
                _ # word # _ \<Rightarrow>
                  let suggestions =
                        (case part1 of Some p \<Rightarrow> map strip (split_on 44 p) | None \<Rightarrow> [])
                  in check_loop ls (AList.update word suggestions results)
              | _ \<Rightarrow> Inl IndexError))
      else if take 1 line = u ''#'' then
        (let word = (case split_ws line of _ # w # _ \<Rightarrow> w | _ \<Rightarrow> [])
         in if word \<noteq> [] then check_loop ls (AList.update word [] results)
            else check_loop ls results)
      else check_loop ls results)"

definition hunspell_check_text ::
  "hunspell \<Rightarrow> ustr \<Rightarrow> call list \<times> (py_error + (ustr \<times> ustr list) list)" where
  "hunspell_check_text run text =
     ([(Mode_a, text)],
      case run Mode_a text of
        None \<Rightarrow> Inr []
      | Some stdout \<Rightarrow> check_loop (splitlines stdout) [])"

text \<open>
  \<open>hunspell_batch_valid\<close> returns a Python \<open>set\<close>, and \<open>main\<close> iterates over it. The order
  in which an interpreter yields the elements of a set of strings follows their hashes,
  which are salted anew for each process, so the order is a parameter: \<open>order xs\<close> is the
  sequence in which this process iterates over the set with the elements \<open>xs\<close>. The
  model returns the set as that sequence. With an empty word list no process is started.
\<close>

definition hunspell_batch_valid ::
  "hunspell \<Rightarrow> (ustr list \<Rightarrow> ustr list) \<Rightarrow> ustr list \<Rightarrow> call list \<times> ustr list" where
  "hunspell_batch_valid run order words =
     (if words = [] then ([], [])
      else
        ([(Mode_l, join [10] words)],
         case run Mode_l (join [10] words) of
           None \<Rightarrow> []
         | Some stdout \<Rightarrow>
             let misspelled =
                   (if strip stdout \<noteq> [] then set (split_on 10 (strip stdout)) else {})
             in order (remdups (filter (\<lambda>w. w \<notin> misspelled) words))))"

section \<open>Layer 3: the ambiguity table\<close>

definition startswith :: "ustr \<Rightarrow> ustr \<Rightarrow> bool" where
  "startswith s t = (take (length t) s = t)"

definition layer3_ambiguity ::
  "ustr \<Rightarrow> (ustr \<rightharpoonup> ustr) \<Rightarrow> ustr set \<Rightarrow> ustr set \<Rightarrow> ustr option" where
  "layer3_ambiguity word amb_lookup amb_skip whitelist =
     (let wl = lower word in
      if wl \<in> whitelist \<or>
         (\<exists>w \<in> whitelist. length w \<ge> 5 \<and> startswith wl w \<and> int (length wl) - int (length w) \<le> 5)
      then None
      else if wl \<in> amb_skip then None
      else if wl \<in> dom amb_lookup then amb_lookup wl
      else None)"

section \<open>The pipeline\<close>

datatype confidence = High | Medium

text \<open>An entry of the list \<open>errors\<close> of \<open>main\<close>: the dict with the five keys.\<close>

record finding =
  f_word :: ustr
  f_correction :: ustr
  f_lines :: "nat list"
  f_confidence :: confidence
  f_layer :: nat

text \<open>
  What a run is given besides its standard input: the configuration, the files, the
  dictionaries as \<open>load_word_set\<close> and \<open>load_ambiguous_lookup\<close> return them, the spell
  checker, and the iteration order of sets in this process.
\<close>

datatype file_state = NoFile | Unreadable py_error | Text ustr

record env =
  env_check_files :: "ustr set"
  env_files :: "ustr \<Rightarrow> file_state"
  env_whitelist :: "ustr set"
  env_amb_lookup :: "ustr \<rightharpoonup> ustr"
  env_amb_skip :: "ustr set"
  env_hunspell :: hunspell
  env_set_order :: "ustr list \<Rightarrow> ustr list"

text \<open>
  Pass 1, the loop over \<open>misspellings.items()\<close>: a word that passes the filters is
  claimed by Layer 1 when \<open>layer1_suggestion\<close> returns a non-empty string, and otherwise
  its variants, if it has any, are kept for Layer 2.
\<close>

definition keep_variants :: "ustr \<Rightarrow> (ustr \<times> ustr list) list \<Rightarrow> (ustr \<times> ustr list) list" where
  "keep_variants word layer2_candidates =
     (let variants = generate_variants word
      in if variants \<noteq> [] then AList.update word variants layer2_candidates
         else layer2_candidates)"

fun pass1 ::
  "ustr set \<Rightarrow> (ustr \<times> nat list) list \<Rightarrow> (ustr \<times> ustr list) list \<Rightarrow>
   finding list \<Rightarrow> ustr set \<Rightarrow> (ustr \<times> ustr list) list \<Rightarrow>
   finding list \<times> ustr set \<times> (ustr \<times> ustr list) list" where
  "pass1 whitelist word_locations [] errors seen_lower layer2_candidates =
     (errors, seen_lower, layer2_candidates)"
| "pass1 whitelist word_locations ((word, suggestions) # items) errors seen_lower layer2_candidates =
     (let wl = lower word in
      if wl \<in> seen_lower \<or> length word < 3
        then pass1 whitelist word_locations items errors seen_lower layer2_candidates
      else if is_identifier word \<or> wl \<in> whitelist
        then pass1 whitelist word_locations items errors seen_lower layer2_candidates
      else
        (case layer1_suggestion word suggestions of
           Some correction \<Rightarrow>
             if correction \<noteq> [] then
               pass1 whitelist word_locations items
                 (errors @ [\<lparr>f_word = word, f_correction = correction,
                             f_lines = get_list word_locations word,
                             f_confidence = High, f_layer = 1\<rparr>])
                 (insert wl seen_lower) layer2_candidates
             else pass1 whitelist word_locations items errors seen_lower
                    (keep_variants word layer2_candidates)
         | None \<Rightarrow>
             pass1 whitelist word_locations items errors seen_lower
               (keep_variants word layer2_candidates)))"

text \<open>
  Layer 2. The two nested loops build \<open>all_variants\<close> and \<open>variant_to_word\<close>; the loop
  over the valid variants groups them by their word (\<open>variant_to_word[v]\<close> raises
  \<open>KeyError\<close> for a key that is not there); the loop over \<open>word_valid.items()\<close> claims each
  word whose lower-case form is still free, with \<open>min(valid_list, key=...)\<close>, which
  returns the first of the minimal elements and raises \<open>ValueError\<close> on an empty list.
\<close>

fun collect_word ::
  "ustr \<Rightarrow> ustr list \<Rightarrow> ustr list \<Rightarrow> (ustr \<times> ustr) list \<Rightarrow> ustr list \<times> (ustr \<times> ustr) list" where
  "collect_word word [] all_variants variant_to_word = (all_variants, variant_to_word)"
| "collect_word word (v # vs) all_variants variant_to_word =
     collect_word word vs (all_variants @ [v]) (AList.update v word variant_to_word)"

fun collect_variants ::
  "(ustr \<times> ustr list) list \<Rightarrow> ustr list \<Rightarrow> (ustr \<times> ustr) list \<Rightarrow>
   ustr list \<times> (ustr \<times> ustr) list" where
  "collect_variants [] all_variants variant_to_word = (all_variants, variant_to_word)"
| "collect_variants ((word, variants) # items) all_variants variant_to_word =
     (case collect_word word variants all_variants variant_to_word of
        (all_variants', variant_to_word') \<Rightarrow>
          collect_variants items all_variants' variant_to_word')"

fun group_valid ::
  "(ustr \<times> ustr) list \<Rightarrow> ustr list \<Rightarrow> (ustr \<times> ustr list) list \<Rightarrow>
   py_error + (ustr \<times> ustr list) list" where
  "group_valid variant_to_word [] word_valid = Inr word_valid"
| "group_valid variant_to_word (v # vs) word_valid =
     (case map_of variant_to_word v of
        None \<Rightarrow> Inl KeyError
      | Some src \<Rightarrow>
          group_valid variant_to_word vs
            (AList.update src (get_list word_valid src @ [v]) word_valid))"

fun min_by :: "('a \<Rightarrow> nat) \<Rightarrow> 'a list \<Rightarrow> 'a option" where
  "min_by key [] = None"
| "min_by key (x # xs) = Some (foldl (\<lambda>best v. if key v < key best then v else best) x xs)"

fun claim_layer2 ::
  "(ustr \<times> nat list) list \<Rightarrow> (ustr \<times> ustr list) list \<Rightarrow> finding list \<Rightarrow> ustr set \<Rightarrow>
   py_error + finding list \<times> ustr set" where
  "claim_layer2 word_locations [] errors seen_lower = Inr (errors, seen_lower)"
| "claim_layer2 word_locations ((word, valid_list) # items) errors seen_lower =
     (let wl = lower word in
      if wl \<in> seen_lower then claim_layer2 word_locations items errors seen_lower
      else
        (case min_by count_diacritics valid_list of
           None \<Rightarrow> Inl ValueError
         | Some best \<Rightarrow>
             claim_layer2 word_locations items
               (errors @ [\<lparr>f_word = word, f_correction = best,
                           f_lines = get_list word_locations word,
                           f_confidence = High, f_layer = 2\<rparr>])
               (insert wl seen_lower)))"

definition layer2 ::
  "hunspell \<Rightarrow> (ustr list \<Rightarrow> ustr list) \<Rightarrow> (ustr \<times> nat list) list \<Rightarrow>
   (ustr \<times> ustr list) list \<Rightarrow> finding list \<Rightarrow> ustr set \<Rightarrow>
   call list \<times> (py_error + finding list \<times> ustr set)" where
  "layer2 run order word_locations layer2_candidates errors seen_lower =
     (if layer2_candidates = [] then ([], Inr (errors, seen_lower))
      else
        (case collect_variants layer2_candidates [] [] of
           (all_variants, variant_to_word) \<Rightarrow>
             (case hunspell_batch_valid run order all_variants of
                (calls, valid_variants) \<Rightarrow>
                  (calls,
                   case group_valid variant_to_word valid_variants [] of
                     Inl e \<Rightarrow> Inl e
                   | Inr word_valid \<Rightarrow>
                       claim_layer2 word_locations word_valid errors seen_lower))))"

text \<open>
  Pass 2, the loop of Layer 3 over the sorted words, with its counter and its brake:
  the loop ends when the counter reaches \<open>LAYER3_BRAKE\<close>.
\<close>

definition LAYER3_BRAKE :: nat where
  "LAYER3_BRAKE = 15"

fun pass2 ::
  "ustr set \<Rightarrow> (ustr \<rightharpoonup> ustr) \<Rightarrow> ustr set \<Rightarrow> (ustr \<times> nat list) list \<Rightarrow>
   (ustr \<times> ustr list) list \<Rightarrow> ustr list \<Rightarrow> finding list \<Rightarrow> ustr set \<Rightarrow> nat \<Rightarrow>
   finding list \<times> ustr set \<times> nat" where
  "pass2 whitelist amb_lookup amb_skip word_locations misspellings [] errors seen_lower layer3_count =
     (errors, seen_lower, layer3_count)"
| "pass2 whitelist amb_lookup amb_skip word_locations misspellings (word # ws) errors seen_lower layer3_count =
     (let wl = lower word in
      if wl \<in> seen_lower
        then pass2 whitelist amb_lookup amb_skip word_locations misspellings ws errors seen_lower layer3_count
      else if is_identifier word \<or> length word < 3
        then pass2 whitelist amb_lookup amb_skip word_locations misspellings ws errors seen_lower layer3_count
      else if \<not> any_swap word
        then pass2 whitelist amb_lookup amb_skip word_locations misspellings ws errors seen_lower layer3_count
      else if word \<in> fst ` set misspellings
        then pass2 whitelist amb_lookup amb_skip word_locations misspellings ws errors seen_lower layer3_count
      else
        (case layer3_ambiguity word amb_lookup amb_skip whitelist of
           Some correction \<Rightarrow>
             if correction \<noteq> [] \<and> lower correction \<noteq> wl then
               (let errors' = errors @ [\<lparr>f_word = word, f_correction = correction,
                                          f_lines = get_list word_locations word,
                                          f_confidence = Medium, f_layer = 3\<rparr>];
                    seen_lower' = insert wl seen_lower;
                    layer3_count' = layer3_count + 1
                in if layer3_count' \<ge> LAYER3_BRAKE then (errors', seen_lower', layer3_count')
                   else pass2 whitelist amb_lookup amb_skip word_locations misspellings ws
                          errors' seen_lower' layer3_count')
             else pass2 whitelist amb_lookup amb_skip word_locations misspellings ws errors seen_lower layer3_count
         | None \<Rightarrow>
             pass2 whitelist amb_lookup amb_skip word_locations misspellings ws errors seen_lower layer3_count))"

text \<open>
  \<open>sorted(unique_words)\<close>, where \<open>unique_words\<close> is the set of the keys of the index:
  the keys without repetition, in the order of their code points.
\<close>

definition sorted_unique :: "(ustr \<times> nat list) list \<Rightarrow> ustr list" where
  "sorted_unique word_locations = sort (remdups (map fst word_locations))"

text \<open>
  The body of \<open>main\<close> from \<open>strip_non_prose\<close> to the end of pass 2: the calls of the spell
  checker, and the list \<open>errors\<close> or the exception that ends the run.
\<close>

definition detect :: "env \<Rightarrow> ustr \<Rightarrow> call list \<times> (py_error + finding list)" where
  "detect env content =
     (let prose = strip_non_prose content;
          whitelist = env_whitelist env;
          amb_lookup = env_amb_lookup env;
          amb_skip = env_amb_skip env;
          word_locations = word_index prose;
          unique_words = sorted_unique word_locations;
          words_text = join [10] unique_words
      in case hunspell_check_text (env_hunspell env) words_text of
           (calls1, Inl e) \<Rightarrow> (calls1, Inl e)
         | (calls1, Inr misspellings) \<Rightarrow>
             (case pass1 whitelist word_locations misspellings [] {} [] of
                (errors1, seen1, layer2_candidates) \<Rightarrow>
                  (case layer2 (env_hunspell env) (env_set_order env) word_locations
                          layer2_candidates errors1 seen1 of
                     (calls2, Inl e) \<Rightarrow> (calls1 @ calls2, Inl e)
                   | (calls2, Inr (errors2, seen2)) \<Rightarrow>
                       (calls1 @ calls2,
                        Inr (fst (pass2 whitelist amb_lookup amb_skip word_locations
                                    misspellings unique_words errors2 seen2 0))))))"

section \<open>The report and the process\<close>

fun show_nat :: "nat \<Rightarrow> ustr" where
  "show_nat n = (if n < 10 then [48 + n] else show_nat (n div 10) @ [48 + n mod 10])"

definition report_entry :: "finding \<Rightarrow> ustr" where
  "report_entry e =
     (let loc = (case f_lines e of [] \<Rightarrow> [] | l # _ \<Rightarrow> u '' (line '' @ show_nat l @ u '')'')
      in u ''  '' @ [39] @ f_word e @ [39] @ u '' -> '' @ [39] @ f_correction e @ [39] @ loc)"

definition report_group :: "string \<Rightarrow> finding list \<Rightarrow> ustr list" where
  "report_group name es =
     (if es \<noteq> [] then
        [u ''['' @ u name @ u '' confidence - '' @ show_nat (length es) @ u '' errors]'']
        @ map report_entry es @ [[]]
      else [])"

definition report :: "ustr \<Rightarrow> finding list \<Rightarrow> ustr" where
  "report file_path errors =
     (let high = filter (\<lambda>e. f_confidence e = High) errors;
          medium = filter (\<lambda>e. f_confidence e = Medium) errors;
          lines_out =
            [u ''Turkish diacritics errors in '' @ file_path @ u '' ('' @
               show_nat (length errors) @ u '' found):'', []]
            @ report_group ''HIGH'' high
            @ report_group ''MEDIUM'' medium
            @ [u ''Fix these Turkish character errors using Edit tool.'']
      in join [10] lines_out @ [10])"

text \<open>
  The payload on standard input, as \<open>json.loads\<close> returns it. An object is the list of
  its items. Of a number the program reads the truth value only, so whole numbers stand
  for all of them.
\<close>

datatype json =
  JNull | JBool bool | JNum int | JStr ustr | JArr "json list" | JObj "(ustr \<times> json) list"

definition py_get :: "json \<Rightarrow> ustr \<Rightarrow> json \<Rightarrow> py_error + json" where
  \<comment> \<open>\<open>data.get(key, dflt)\<close>: only a dict has the method\<close>
  "py_get data key dflt =
     (case data of
        JObj items \<Rightarrow> Inr (case map_of items key of Some v \<Rightarrow> v | None \<Rightarrow> dflt)
      | _ \<Rightarrow> Inl AttributeError)"

fun truthy :: "json \<Rightarrow> bool" where
  "truthy JNull = False"
| "truthy (JBool b) = b"
| "truthy (JNum n) = (n \<noteq> 0)"
| "truthy (JStr s) = (s \<noteq> [])"
| "truthy (JArr xs) = (xs \<noteq> [])"
| "truthy (JObj items) = (items \<noteq> [])"

definition basename :: "ustr \<Rightarrow> ustr" where
  \<comment> \<open>\<open>os.path.basename\<close>: what follows the last slash\<close>
  "basename p = rev (takeWhile (\<lambda>c. c \<noteq> 47) (rev p))"

text \<open>
  How the process ends: \<open>sys.exit(code)\<close> with what it has written to standard output and
  to standard error, or an exception that nothing catches.
\<close>

datatype outcome = Exit nat ustr ustr | Uncaught py_error

fun exit_code :: "outcome \<Rightarrow> nat" where
  "exit_code (Exit code out err) = code"
| "exit_code (Uncaught e) = 1"

text \<open>
  \<open>main\<close>. Its argument \<open>stdin\<close> is the result of \<open>json.loads(sys.stdin.read())\<close>: \<open>None\<close>
  when that raises \<open>ValueError\<close>, of which \<open>JSONDecodeError\<close> is a subclass.
  \<open>os.path.basename\<close> raises \<open>TypeError\<close> on a value that is no string.
\<close>

definition main :: "env \<Rightarrow> json option \<Rightarrow> call list \<times> outcome" where
  "main env stdin =
     (case stdin of
        None \<Rightarrow> ([], Exit 0 [] [])
      | Some data \<Rightarrow>
     (case py_get data (u ''tool_name'') (JStr []) of
        Inl e \<Rightarrow> ([], Uncaught e)
      | Inr tool_name \<Rightarrow>
     (case py_get data (u ''tool_input'') (JObj []) of
        Inl e \<Rightarrow> ([], Uncaught e)
      | Inr tool_input \<Rightarrow>
     if tool_name \<noteq> JStr (u ''Edit'') \<and> tool_name \<noteq> JStr (u ''Write'') then ([], Exit 0 [] [])
     else
     (case py_get tool_input (u ''file_path'') (JStr []) of
        Inl e \<Rightarrow> ([], Uncaught e)
      | Inr file_path \<Rightarrow>
     if \<not> truthy file_path then ([], Exit 0 [] [])
     else
     (case file_path of
        JStr path \<Rightarrow>
          if basename path \<notin> env_check_files env then ([], Exit 0 [] [])
          else
            (case env_files env path of
               NoFile \<Rightarrow> ([], Exit 0 [] [])
             | Unreadable e \<Rightarrow> ([], Uncaught e)
             | Text content \<Rightarrow>
                 (case detect env content of
                    (calls, Inl e) \<Rightarrow> (calls, Uncaught e)
                  | (calls, Inr errors) \<Rightarrow>
                      if errors = [] then (calls, Exit 0 [] [])
                      else (calls, Exit 2 [] (report path errors))))
      | _ \<Rightarrow> ([], Uncaught TypeError))))))"

section \<open>Notions used in the statements\<close>

text \<open>
  \<open>extends errors seen new errors' seen'\<close>: a pass that starts with the list \<open>errors\<close> and
  the set \<open>seen\<close> ends with \<open>errors'\<close> and \<open>seen'\<close>, having appended the findings \<open>new\<close>,
  whose lower-case words are pairwise different, were not in \<open>seen\<close>, and are what it has
  added to the set.
\<close>

definition extends ::
  "finding list \<Rightarrow> ustr set \<Rightarrow> finding list \<Rightarrow> finding list \<Rightarrow> ustr set \<Rightarrow> bool" where
  "extends errors seen new errors' seen' =
     (errors' = errors @ new \<and>
      seen' = seen \<union> (\<lambda>e. lower (f_word e)) ` set new \<and>
      distinct (map (\<lambda>e. lower (f_word e)) new) \<and>
      (\<lambda>e. lower (f_word e)) ` set new \<inter> seen = {})"

text \<open>
  Pass 1 as \<open>main\<close> runs it, on the content of the file and the parsed answer of the
  first call: the Layer 1 findings, their lower-case words, and \<open>layer2_candidates\<close>.
\<close>

definition pass1_of ::
  "env \<Rightarrow> ustr \<Rightarrow> (ustr \<times> ustr list) list \<Rightarrow>
   finding list \<times> ustr set \<times> (ustr \<times> ustr list) list" where
  "pass1_of env content misspellings =
     pass1 (env_whitelist env) (word_index (strip_non_prose content)) misspellings [] {} []"

text \<open>The number of newline characters of a text.\<close>

definition newlines :: "ustr \<Rightarrow> nat" where
  "newlines s = length (filter (\<lambda>c. c = 10) s)"

text \<open>The text that \<open>main\<close> sends to the first call: the sorted words, one per line.\<close>

definition words_text :: "ustr \<Rightarrow> ustr" where
  "words_text content = join [10] (sorted_unique (word_index (strip_non_prose content)))"

text \<open>What pass 1 appends, and what it keeps for Layer 2.\<close>

definition layer1_finding ::
  "ustr set \<Rightarrow> (ustr \<times> nat list) list \<Rightarrow> (ustr \<times> ustr list) list \<Rightarrow> finding \<Rightarrow> bool" where
  "layer1_finding whitelist word_locations items e =
     (f_layer e = 1 \<and> f_confidence e = High \<and>
      f_lines e = get_list word_locations (f_word e) \<and>
      3 \<le> length (f_word e) \<and> \<not> is_identifier (f_word e) \<and> lower (f_word e) \<notin> whitelist \<and>
      f_correction e \<noteq> [] \<and>
      (\<exists>suggestions. (f_word e, suggestions) \<in> set items \<and>
         layer1_suggestion (f_word e) suggestions = Some (f_correction e)))"

definition layer2_candidate :: "(ustr \<times> ustr list) list \<Rightarrow> ustr \<times> ustr list \<Rightarrow> bool" where
  "layer2_candidate items c =
     (snd c = generate_variants (fst c) \<and> snd c \<noteq> [] \<and> fst c \<in> fst ` set items)"

text \<open>What Layer 2 and Layer 3 append.\<close>

definition layer2_finding ::
  "(ustr \<times> nat list) list \<Rightarrow> (ustr \<times> ustr list) list \<Rightarrow> finding \<Rightarrow> bool" where
  "layer2_finding word_locations layer2_candidates e =
     (f_layer e = 2 \<and> f_confidence e = High \<and>
      f_lines e = get_list word_locations (f_word e) \<and>
      f_word e \<in> fst ` set layer2_candidates)"

definition layer3_finding ::
  "ustr set \<Rightarrow> (ustr \<rightharpoonup> ustr) \<Rightarrow> ustr set \<Rightarrow> (ustr \<times> nat list) list \<Rightarrow>
   (ustr \<times> ustr list) list \<Rightarrow> finding \<Rightarrow> bool" where
  "layer3_finding whitelist amb_lookup amb_skip word_locations misspellings e =
     (f_layer e = 3 \<and> f_confidence e = Medium \<and>
      f_lines e = get_list word_locations (f_word e) \<and>
      \<not> is_identifier (f_word e) \<and> 3 \<le> length (f_word e) \<and> any_swap (f_word e) \<and>
      f_word e \<notin> fst ` set misspellings \<and>
      layer3_ambiguity (f_word e) amb_lookup amb_skip whitelist = Some (f_correction e) \<and>
      f_correction e \<noteq> [] \<and> lower (f_correction e) \<noteq> lower (f_word e))"

text \<open>
  Why Layer 1 never claims a word without a substitutable letter: the lower case of a
  folded string holds one of the letters \<open>c g i o s u\<close> for each diacritic and each
  substitutable ASCII letter of the string, and no other.
\<close>

definition base6 :: "nat \<Rightarrow> bool" where
  "base6 c = (c \<in> {99, 103, 105, 111, 115, 117})"

definition base12 :: "nat \<Rightarrow> bool" where
  "base12 c = (c \<in> {99, 103, 105, 111, 115, 117, 67, 71, 73, 79, 83, 85})"

section \<open>An example run\<close>

text \<open>
  A file \<open>/w/tr.md\<close> with the one line \<open>ornek sut agac\<close>. The spell checker accepts
  \<open>agac\<close>, suggests the word with o-diaeresis for \<open>ornek\<close>, and has no suggestion for
  \<open>sut\<close>; of the three variants of \<open>sut\<close> it rejects the one with both diacritics. The
  ambiguity table maps \<open>agac\<close> to the word with g-breve and c-cedilla.
\<close>

definition example_content :: ustr where
  "example_content = u ''ornek sut agac''"

definition example_answer_a :: ustr where
  "example_answer_a =
     u ''*'' @ [10, 10] @ u ''& ornek 1 0: '' @ [246] @ u ''rnek'' @ [10, 10] @
     u ''# sut 0'' @ [10, 10]"

definition example_env :: env where
  "example_env =
     \<lparr>env_check_files = {u ''tr.mdx'', u ''tr.md''},
      env_files = (\<lambda>path. if path = u ''/w/tr.md'' then Text example_content else NoFile),
      env_whitelist = {},
      env_amb_lookup = [u ''agac'' \<mapsto> [97, 287, 97, 231]],
      env_amb_skip = {},
      env_hunspell =
        (\<lambda>mode text. case mode of
           Mode_a \<Rightarrow> Some example_answer_a
         | Mode_l \<Rightarrow> Some [351, 252, 116, 10]),
      env_set_order = id\<rparr>"

definition example_stdin :: "json option" where
  "example_stdin =
     Some (JObj [(u ''tool_name'', JStr (u ''Write'')),
                 (u ''tool_input'', JObj [(u ''file_path'', JStr (u ''/w/tr.md''))])])"

definition example_errors :: "finding list" where
  "example_errors =
     [\<lparr>f_word = u ''ornek'', f_correction = [246] @ u ''rnek'', f_lines = [1],
        f_confidence = High, f_layer = 1\<rparr>,
      \<lparr>f_word = u ''sut'', f_correction = [115, 252, 116], f_lines = [1],
        f_confidence = High, f_layer = 2\<rparr>,
      \<lparr>f_word = u ''agac'', f_correction = [97, 287, 97, 231], f_lines = [1],
        f_confidence = Medium, f_layer = 3\<rparr>]"

text \<open>
  The same run in a process that iterates over the set of valid variants in the opposite
  order, and what it finds.
\<close>

definition example_env_rev :: env where
  "example_env_rev = example_env\<lparr>env_set_order := rev\<rparr>"

definition example_errors_rev :: "finding list" where
  "example_errors_rev =
     [\<lparr>f_word = u ''ornek'', f_correction = [246] @ u ''rnek'', f_lines = [1],
        f_confidence = High, f_layer = 1\<rparr>,
      \<lparr>f_word = u ''sut'', f_correction = [351, 117, 116], f_lines = [1],
        f_confidence = High, f_layer = 2\<rparr>,
      \<lparr>f_word = u ''agac'', f_correction = [97, 287, 97, 231], f_lines = [1],
        f_confidence = Medium, f_layer = 3\<rparr>]"

text \<open>
  The same run on a file that exists and cannot be decoded as UTF-8: \<open>f.read()\<close> raises
  \<open>UnicodeDecodeError\<close>.
\<close>

definition example_env_undecodable :: env where
  "example_env_undecodable =
     example_env\<lparr>env_files :=
       (\<lambda>path. if path = u ''/w/tr.md'' then Unreadable UnicodeDecodeError else NoFile)\<rparr>"

text \<open>
  A document of three lines: a tag that spans the first two, and the word \<open>sut\<close> on the
  third.
\<close>

definition example_tag :: ustr where
  "example_tag = u ''<img'' @ [10] @ u ''src=x>'' @ [10] @ u ''sut''"

text \<open>
  A file with the line \<open>sut kus\<close>, for both of whose words the spell checker has no
  suggestion and all of whose variants it accepts.
\<close>

definition example_content_two :: ustr where
  "example_content_two = u ''sut kus''"

definition example_env_two :: env where
  "example_env_two =
     example_env\<lparr>
       env_files := (\<lambda>path. if path = u ''/w/tr.md'' then Text example_content_two else NoFile),
       env_hunspell :=
         (\<lambda>mode text. case mode of
            Mode_a \<Rightarrow> Some (u ''# kus 0'' @ [10, 10] @ u ''# sut 0'' @ [10, 10])
          | Mode_l \<Rightarrow> Some [])\<rparr>"

section \<open>Variant generation\<close>

lemma snd_positions_aux:
  "map snd (map (\<lambda>(i, c). case SWAP_MAP c of Some sw \<Rightarrow> (i, [c] @ sw) | None \<Rightarrow> (i, [c]))
             (enumerate n word))
   = map (\<lambda>c. case SWAP_MAP c of Some sw \<Rightarrow> c # sw | None \<Rightarrow> [c]) word"
  by (induction word arbitrary: n) (auto split: option.splits)

lemma snd_positions:
  "map snd (positions word) = map (\<lambda>c. case SWAP_MAP c of Some sw \<Rightarrow> c # sw | None \<Rightarrow> [c]) word"
  unfolding positions_def by (rule snd_positions_aux)

lemma SWAP_MAP_cases:
  assumes "SWAP_MAP c = Some sw"
  shows "(c, sw) \<in> {(99, [231]), (103, [287]), (105, [305]), (111, [246]), (115, [351]),
           (117, [252]), (67, [199]), (71, [286]), (73, [304]), (79, [214]), (83, [350]),
           (85, [220])}"
proof -
  from assms have "(c, sw) \<in> set [(99, [231]), (103, [287]), (105, [305]), (111, [246]),
      (115, [351]), (117, [252]), (67, [199]), (71, [286]), (73, [304]), (79, [214]),
      (83, [350]), (85, [220::nat])]"
    unfolding SWAP_MAP_def by (rule map_of_SomeD)
  then show ?thesis by simp
qed

lemma SWAP_MAP_nonempty: "SWAP_MAP c = Some sw \<Longrightarrow> sw \<noteq> []"
  by (drule SWAP_MAP_cases) auto

lemma variants_loop_set:
  "set (variants_loop word dc combos n acc) \<subseteq>
     set acc \<union> {c \<in> set combos. c \<noteq> word \<and> count_diacritics c > dc}"
  by (induction word dc combos n acc rule: variants_loop.induct) auto

lemma variants_loop_length:
  "length acc \<le> n \<Longrightarrow> n \<le> 64 \<Longrightarrow> length (variants_loop word dc combos n acc) \<le> 64"
  by (induction word dc combos n acc rule: variants_loop.induct) auto

lemma opts_length:
  "(1 < length (case SWAP_MAP c of Some sw \<Rightarrow> c # sw | None \<Rightarrow> [c])) = (SWAP_MAP c \<noteq> None)"
  using SWAP_MAP_nonempty[of c] by (cases "SWAP_MAP c") auto

lemma swappable_count:
  "length (filter (\<lambda>(_, opts). length opts > 1) (positions word))
   = length (filter (\<lambda>c. SWAP_MAP c \<noteq> None) word)"
proof -
  have "length (filter (\<lambda>(_, opts). length opts > 1) (positions word))
        = length (filter (\<lambda>opts. length opts > 1) (map snd (positions word)))"
    by (simp add: filter_map comp_def case_prod_unfold)
  also have "\<dots> = length (filter (\<lambda>c. SWAP_MAP c \<noteq> None) word)"
    unfolding snd_positions filter_map comp_def opts_length by simp
  finally show ?thesis .
qed

lemma generate_variants_subset:
  "set (generate_variants word) \<subseteq>
     {c \<in> set (itertools_product (map snd (positions word))).
        c \<noteq> word \<and> count_diacritics c > count_diacritics word}"
  using variants_loop_set[of word "count_diacritics word"
          "itertools_product (map snd (positions word))" 0 "[]"]
  by (auto simp: generate_variants_def Let_def)

lemmas eval_diacritics =
  u_def any_swap_def SWAP_MAP_def DIACRITICS_MAP_def positions_def count_diacritics_def
  ascii_fold_def enumerate_eq_zip

text \<open>
  C6. For every word, \<open>generate_variants\<close> never returns the word itself, returns at most
  64 candidates, returns only candidates with strictly more diacritic characters than
  the word, and returns no candidate when the word has more than 6 substitutable
  positions (letters in the domain of \<open>SWAP_MAP\<close>) or none at all.
\<close>

theorem generate_variants_bounds:
  "word \<notin> set (generate_variants word) \<and>
   length (generate_variants word) \<le> 64 \<and>
   (\<forall>v \<in> set (generate_variants word). count_diacritics v > count_diacritics word) \<and>
   (length (filter (\<lambda>c. SWAP_MAP c \<noteq> None) word) > 6 \<or>
    \<not> (\<exists>c \<in> set word. SWAP_MAP c \<noteq> None)
      \<longrightarrow> generate_variants word = [])"
proof -
  note sub = generate_variants_subset[of word]
  have len: "length (generate_variants word) \<le> 64"
    using variants_loop_length[of "[]" 0 word "count_diacritics word"
            "itertools_product (map snd (positions word))"]
    by (simp add: generate_variants_def Let_def)
  have none: "length (filter (\<lambda>c. SWAP_MAP c \<noteq> None) word) > 6 \<or>
      \<not> (\<exists>c \<in> set word. SWAP_MAP c \<noteq> None) \<longrightarrow> generate_variants word = []"
    unfolding generate_variants_def Let_def swappable_count any_swap_def by auto
  from sub have "word \<notin> set (generate_variants word)" by blast
  moreover from sub
  have "\<forall>v \<in> set (generate_variants word). count_diacritics v > count_diacritics word"
    by blast
  ultimately show ?thesis using len none by blast
qed

text \<open>
  The theorem at three words: \<open>sut\<close> has two substitutable letters and three variants,
  each with more diacritics than \<open>sut\<close>, which has none; \<open>kalem\<close> has no substitutable
  letter; \<open>gosterisci\<close> has seven.
\<close>

theorem generate_variants_bounds_witness:
  "generate_variants (u ''sut'') = [[115, 252, 116], [351, 117, 116], [351, 252, 116]] \<and>
   u ''sut'' \<notin> set (generate_variants (u ''sut'')) \<and>
   count_diacritics (u ''sut'') < count_diacritics [115, 252, 116] \<and>
   count_diacritics (u ''sut'') < count_diacritics [351, 117, 116] \<and>
   count_diacritics (u ''sut'') < count_diacritics [351, 252, 116] \<and>
   \<not> (\<exists>c \<in> set (u ''kalem''). SWAP_MAP c \<noteq> None) \<and>
   generate_variants (u ''kalem'') = [] \<and>
   length (filter (\<lambda>c. SWAP_MAP c \<noteq> None) (u ''gosterisci'')) = 7 \<and>
   generate_variants (u ''gosterisci'') = []"
proof -
  have sut: "generate_variants (u ''sut'') = [[115, 252, 116], [351, 117, 116], [351, 252, 116]]"
    by (simp add: generate_variants_def eval_diacritics)
  have kalem: "\<not> (\<exists>c \<in> set (u ''kalem''). SWAP_MAP c \<noteq> None)"
    by (simp add: eval_diacritics)
  have sucuk: "length (filter (\<lambda>c. SWAP_MAP c \<noteq> None) (u ''gosterisci'')) = 7"
    by (simp add: eval_diacritics)
  from generate_variants_bounds[of "u ''sut''"] generate_variants_bounds[of "u ''kalem''"]
    generate_variants_bounds[of "u ''gosterisci''"] sut kalem sucuk
  show ?thesis by simp
qed

section \<open>Layer 1\<close>

lemma layer1_loop_find:
  "layer1_loop word folded dc suggestions =
     find (\<lambda>s. lower (ascii_fold s) = folded \<and> lower s \<noteq> lower word \<and> dc < count_diacritics s)
       suggestions"
  by (induction suggestions) auto

lemma layer1_suggestion_find:
  "layer1_suggestion word suggestions =
     find (\<lambda>s. lower (ascii_fold s) = lower (ascii_fold word) \<and> lower s \<noteq> lower word \<and>
                count_diacritics word < count_diacritics s) suggestions"
  by (simp add: layer1_suggestion_def layer1_loop_find)

section \<open>Invariants of the three passes\<close>

text \<open>
  An invariant rule for pass 1: a property of the list of findings, the set of claimed
  forms and the Layer 2 candidates that holds before the loop, and that a claim and the
  keeping of variants preserve, holds after it. \<open>S\<close> is any set that holds the items.
\<close>

lemma pass1_rule_gen:
  assumes sub: "set items \<subseteq> S"
    and init: "P errors seen l2c"
    and claim: "\<And>word suggestions correction errors seen l2c.
      (word, suggestions) \<in> S \<Longrightarrow> P errors seen l2c \<Longrightarrow> lower word \<notin> seen \<Longrightarrow>
      3 \<le> length word \<Longrightarrow> \<not> is_identifier word \<Longrightarrow> lower word \<notin> whitelist \<Longrightarrow>
      layer1_suggestion word suggestions = Some correction \<Longrightarrow> correction \<noteq> [] \<Longrightarrow>
      P (errors @ [\<lparr>f_word = word, f_correction = correction,
                     f_lines = get_list word_locations word,
                     f_confidence = High, f_layer = 1\<rparr>])
        (insert (lower word) seen) l2c"
    and keep: "\<And>word suggestions errors seen l2c.
      (word, suggestions) \<in> S \<Longrightarrow> P errors seen l2c \<Longrightarrow> lower word \<notin> seen \<Longrightarrow>
      3 \<le> length word \<Longrightarrow> \<not> is_identifier word \<Longrightarrow> lower word \<notin> whitelist \<Longrightarrow>
      P errors seen (keep_variants word l2c)"
  shows "case pass1 whitelist word_locations items errors seen l2c of (e, s, l) \<Rightarrow> P e s l"
  using sub init claim keep
proof (induction whitelist word_locations items errors seen l2c rule: pass1.induct)
  case (1 whitelist word_locations errors seen_lower layer2_candidates)
  then show ?case by simp
next
  case (2 whitelist word_locations word suggestions items errors seen_lower layer2_candidates)
  note IH = "2.IH" and init = "2.prems"(2) and claim = "2.prems"(3) and keep = "2.prems"(4)
  from "2.prems"(1) have here: "(word, suggestions) \<in> S" and sub: "set items \<subseteq> S" by auto
  show ?case
  proof (cases "lower word \<in> seen_lower \<or> length word < 3")
    case True
    with IH(1)[OF refl True sub init claim keep] show ?thesis by (simp add: Let_def)
  next
    case skip1: False
    show ?thesis
    proof (cases "is_identifier word \<or> lower word \<in> whitelist")
      case True
      with skip1 IH(2)[OF refl skip1 True sub init claim keep] show ?thesis by (simp add: Let_def)
    next
      case skip2: False
      from skip1 skip2 have pre: "lower word \<notin> seen_lower" "3 \<le> length word"
        "\<not> is_identifier word" "lower word \<notin> whitelist" by auto
      have K: "P errors seen_lower (keep_variants word layer2_candidates)"
        using keep[OF here init pre] .
      show ?thesis
      proof (cases "layer1_suggestion word suggestions")
        case None
        with skip1 skip2 IH(3)[OF refl skip1 skip2 None sub K claim keep] show ?thesis
          by (simp add: Let_def)
      next
        case (Some correction)
        show ?thesis
        proof (cases "correction = []")
          case True
          with Some skip1 skip2 IH(5)[OF refl skip1 skip2 Some _ sub K claim keep] show ?thesis
            by (simp add: Let_def)
        next
          case False
          have C: "P (errors @ [\<lparr>f_word = word, f_correction = correction,
                     f_lines = get_list word_locations word,
                     f_confidence = High, f_layer = 1\<rparr>])
                  (insert (lower word) seen_lower) layer2_candidates"
            using claim[OF here init pre Some False] .
          with Some False skip1 skip2 IH(4)[OF refl skip1 skip2 Some False sub C claim keep] show ?thesis
            by (simp add: Let_def)
        qed
      qed
    qed
  qed
qed

text \<open>The same for the loop of Layer 2 over \<open>word_valid.items()\<close>, when it raises nothing.\<close>

lemma claim_layer2_rule:
  assumes sub: "set items \<subseteq> S"
    and init: "P errors seen"
    and res: "claim_layer2 word_locations items errors seen = Inr (e, s)"
    and claim: "\<And>word valid_list best errors seen.
      (word, valid_list) \<in> S \<Longrightarrow> P errors seen \<Longrightarrow> lower word \<notin> seen \<Longrightarrow>
      min_by count_diacritics valid_list = Some best \<Longrightarrow>
      P (errors @ [\<lparr>f_word = word, f_correction = best,
                     f_lines = get_list word_locations word,
                     f_confidence = High, f_layer = 2\<rparr>])
        (insert (lower word) seen)"
  shows "P e s"
  using sub init res claim
proof (induction word_locations items errors seen rule: claim_layer2.induct)
  case (1 word_locations errors seen_lower)
  then show ?case by simp
next
  case (2 word_locations word valid_list items errors seen_lower)
  note IH = "2.IH" and init = "2.prems"(2) and res = "2.prems"(3) and claim = "2.prems"(4)
  from "2.prems"(1) have here: "(word, valid_list) \<in> S" and sub: "set items \<subseteq> S" by auto
  show ?case
  proof (cases "lower word \<in> seen_lower")
    case True
    with res have "claim_layer2 word_locations items errors seen_lower = Inr (e, s)"
      by (simp add: Let_def)
    from IH(1)[OF refl True sub init this claim] show ?thesis .
  next
    case False
    show ?thesis
    proof (cases "min_by count_diacritics valid_list")
      case None
      with False res show ?thesis by (simp add: Let_def)
    next
      case (Some best)
      let ?e = "errors @ [\<lparr>f_word = word, f_correction = best,
                     f_lines = get_list word_locations word,
                     f_confidence = High, f_layer = 2\<rparr>]"
      have C: "P ?e (insert (lower word) seen_lower)"
        using claim[OF here init False Some] .
      from Some False res
      have "claim_layer2 word_locations items ?e (insert (lower word) seen_lower) = Inr (e, s)"
        by (simp add: Let_def)
      from IH(2)[OF refl False Some sub C this claim] show ?thesis .
    qed
  qed
qed

text \<open>
  One round of the loop of pass 2: the word is passed over, or it is claimed, and then
  the loop ends if the brake is reached.
\<close>

lemma pass2_skip:
  assumes "lower word \<in> seen \<or> is_identifier word \<or> length word < 3 \<or> \<not> any_swap word \<or>
     word \<in> fst ` set misspellings \<or>
     (case layer3_ambiguity word amb_lookup amb_skip whitelist of
        None \<Rightarrow> True | Some c \<Rightarrow> c = [] \<or> lower c = lower word)"
  shows "pass2 whitelist amb_lookup amb_skip word_locations misspellings (word # ws) errors seen n
       = pass2 whitelist amb_lookup amb_skip word_locations misspellings ws errors seen n"
  using assms by (auto simp: Let_def split: option.splits)

lemma pass2_claim:
  assumes "lower word \<notin> seen" "\<not> is_identifier word" "3 \<le> length word" "any_swap word"
     "word \<notin> fst ` set misspellings"
     "layer3_ambiguity word amb_lookup amb_skip whitelist = Some c" "c \<noteq> []" "lower c \<noteq> lower word"
  shows "pass2 whitelist amb_lookup amb_skip word_locations misspellings (word # ws) errors seen n
       = (if n + 1 \<ge> LAYER3_BRAKE
          then (errors @ [\<lparr>f_word = word, f_correction = c,
                     f_lines = get_list word_locations word,
                     f_confidence = Medium, f_layer = 3\<rparr>], insert (lower word) seen, n + 1)
          else pass2 whitelist amb_lookup amb_skip word_locations misspellings ws
                (errors @ [\<lparr>f_word = word, f_correction = c,
                     f_lines = get_list word_locations word,
                     f_confidence = Medium, f_layer = 3\<rparr>]) (insert (lower word) seen) (n + 1))"
  using assms by (simp add: Let_def)

text \<open>
  The invariant rule for pass 2. The counter is below the brake whenever the loop claims
  a word.
\<close>

lemma pass2_rule:
  assumes sub: "set ws \<subseteq> S"
    and init: "P errors seen n"
    and below: "n < LAYER3_BRAKE"
    and claim: "\<And>word correction errors seen n.
      word \<in> S \<Longrightarrow> P errors seen n \<Longrightarrow> n < LAYER3_BRAKE \<Longrightarrow> lower word \<notin> seen \<Longrightarrow>
      \<not> is_identifier word \<Longrightarrow> 3 \<le> length word \<Longrightarrow> any_swap word \<Longrightarrow>
      word \<notin> fst ` set misspellings \<Longrightarrow>
      layer3_ambiguity word amb_lookup amb_skip whitelist = Some correction \<Longrightarrow>
      correction \<noteq> [] \<Longrightarrow> lower correction \<noteq> lower word \<Longrightarrow>
      P (errors @ [\<lparr>f_word = word, f_correction = correction,
                     f_lines = get_list word_locations word,
                     f_confidence = Medium, f_layer = 3\<rparr>])
        (insert (lower word) seen) (n + 1)"
  shows "case pass2 whitelist amb_lookup amb_skip word_locations misspellings ws errors seen n
         of (e, s, c) \<Rightarrow> P e s c"
  using sub init below
proof (induction ws arbitrary: errors seen n)
  case Nil
  then show ?case by simp
next
  case (Cons word ws)
  from Cons.prems(1) have here: "word \<in> S" and sub: "set ws \<subseteq> S" by auto
  note init = Cons.prems(2) and below = Cons.prems(3)
  let ?skip = "lower word \<in> seen \<or> is_identifier word \<or> length word < 3 \<or> \<not> any_swap word \<or>
     word \<in> fst ` set misspellings \<or>
     (case layer3_ambiguity word amb_lookup amb_skip whitelist of
        None \<Rightarrow> True | Some c \<Rightarrow> c = [] \<or> lower c = lower word)"
  show ?case
  proof (cases ?skip)
    case True
    show ?thesis
      unfolding pass2_skip[OF True] by (rule Cons.IH[OF sub init below])
  next
    case False
    then obtain c where c: "layer3_ambiguity word amb_lookup amb_skip whitelist = Some c"
      "c \<noteq> []" "lower c \<noteq> lower word"
      by (cases "layer3_ambiguity word amb_lookup amb_skip whitelist") auto
    from False have pre: "lower word \<notin> seen" "\<not> is_identifier word" "3 \<le> length word"
      "any_swap word" "word \<notin> fst ` set misspellings" by auto
    let ?e = "errors @ [\<lparr>f_word = word, f_correction = c,
                     f_lines = get_list word_locations word,
                     f_confidence = Medium, f_layer = 3\<rparr>]"
    have C: "P ?e (insert (lower word) seen) (n + 1)"
      using claim[OF here init below pre c] .
    show ?thesis
    proof (cases "n + 1 \<ge> LAYER3_BRAKE")
      case True
      with C show ?thesis unfolding pass2_claim[OF pre c] by simp
    next
      case False
      then have "n + 1 < LAYER3_BRAKE" by simp
      from Cons.IH[OF sub C this] False show ?thesis unfolding pass2_claim[OF pre c] by simp
    qed
  qed
qed

text \<open>What each pass appends.\<close>

lemma extends_refl: "extends errors seen [] errors seen"
  by (simp add: extends_def)

lemma extends_step:
  assumes "extends errors seen new errors' seen'" "lower (f_word x) \<notin> seen'"
  shows "extends errors seen (new @ [x]) (errors' @ [x]) (insert (lower (f_word x)) seen')"
  using assms by (auto simp: extends_def)

lemma extends_trans:
  assumes "extends e0 s0 n1 e1 s1" "extends e1 s1 n2 e2 s2"
  shows "extends e0 s0 (n1 @ n2) e2 s2"
  using assms by (auto simp: extends_def)

lemma set_update_subset: "set (AList.update k v al) \<subseteq> insert (k, v) (set al)"
  by (induction al) auto

lemma pass1_spec:
  assumes "pass1 whitelist word_locations items errors seen l2c = (errors', seen', l2c')"
  shows "\<exists>new. extends errors seen new errors' seen' \<and>
           (\<forall>e \<in> set new. layer1_finding whitelist word_locations items e) \<and>
           (\<forall>c \<in> set l2c'. c \<in> set l2c \<or> layer2_candidate items c)"
proof -
  let ?P = "\<lambda>e s l. \<exists>new. extends errors seen new e s \<and>
           (\<forall>e \<in> set new. layer1_finding whitelist word_locations items e) \<and>
           (\<forall>c \<in> set l. c \<in> set l2c \<or> layer2_candidate items c)"
  have "case pass1 whitelist word_locations items errors seen l2c of (e, s, l) \<Rightarrow> ?P e s l"
  proof (rule pass1_rule_gen[where S = "set items"], goal_cases)
    case 1
    show ?case by simp
  next
    case 2
    show ?case using extends_refl[of errors seen] by (intro exI[of _ "[]"]) simp
  next
    case (3 word suggestions correction e s l)
    from 3(2) obtain new where new: "extends errors seen new e s"
      "\<forall>e \<in> set new. layer1_finding whitelist word_locations items e"
      "\<forall>c \<in> set l. c \<in> set l2c \<or> layer2_candidate items c" by blast
    let ?x = "\<lparr>f_word = word, f_correction = correction,
               f_lines = get_list word_locations word, f_confidence = High, f_layer = 1\<rparr>"
    have "extends errors seen (new @ [?x]) (e @ [?x]) (insert (lower word) s)"
      using extends_step[OF new(1), of ?x] 3(3) by simp
    moreover have "layer1_finding whitelist word_locations items ?x"
      using 3 by (auto simp: layer1_finding_def)
    ultimately show ?case using new(2,3) by (intro exI[of _ "new @ [?x]"]) auto
  next
    case (4 word suggestions e s l)
    from 4(2) obtain new where new: "extends errors seen new e s"
      "\<forall>e \<in> set new. layer1_finding whitelist word_locations items e"
      "\<forall>c \<in> set l. c \<in> set l2c \<or> layer2_candidate items c" by blast
    have "\<forall>c \<in> set (keep_variants word l). c \<in> set l2c \<or> layer2_candidate items c"
    proof
      fix c assume c: "c \<in> set (keep_variants word l)"
      show "c \<in> set l2c \<or> layer2_candidate items c"
      proof (cases "generate_variants word = []")
        case True
        with c new(3) show ?thesis by (simp add: keep_variants_def)
      next
        case False
        with c have "c \<in> insert (word, generate_variants word) (set l)"
          using set_update_subset[of word "generate_variants word" l]
          by (auto simp: keep_variants_def Let_def)
        with new(3) False 4(1) show ?thesis
          by (force simp: layer2_candidate_def)
      qed
    qed
    with new(1,2) show ?case by blast
  qed
  with assms show ?thesis by simp
qed

text \<open>
  Layer 2: every variant sent to the spell checker comes from a candidate, and every key
  of \<open>word_valid\<close> is the word of a candidate.
\<close>

lemma collect_word_spec:
  "collect_word word vs av v2w = (av', v2w') \<Longrightarrow>
     av' = av @ vs \<and> (\<forall>p \<in> set v2w'. p \<in> set v2w \<or> snd p = word)"
proof (induction vs arbitrary: av v2w)
  case Nil
  then show ?case by simp
next
  case (Cons v vs)
  from Cons.prems have "collect_word word vs (av @ [v]) (AList.update v word v2w) = (av', v2w')"
    by simp
  from Cons.IH[OF this] set_update_subset[of v word v2w] show ?case by auto
qed

lemma collect_variants_spec:
  "collect_variants items av v2w = (av', v2w') \<Longrightarrow>
     av' = av @ concat (map snd items) \<and>
     (\<forall>p \<in> set v2w'. p \<in> set v2w \<or> snd p \<in> fst ` set items)"
proof (induction items arbitrary: av v2w)
  case Nil
  then show ?case by simp
next
  case (Cons item items)
  obtain word variants where item: "item = (word, variants)" by (cases item)
  obtain av1 v2w1 where cw: "collect_word word variants av v2w = (av1, v2w1)"
    by (cases "collect_word word variants av v2w")
  with Cons.prems item have "collect_variants items av1 v2w1 = (av', v2w')" by simp
  from Cons.IH[OF this] collect_word_spec[OF cw] item show ?case by auto
qed

lemma group_valid_spec:
  "group_valid v2w vs wv = Inr wv' \<Longrightarrow>
     (\<forall>p \<in> set wv'. p \<in> set wv \<or> fst p \<in> snd ` set v2w)"
proof (induction vs arbitrary: wv)
  case Nil
  then show ?case by simp
next
  case (Cons v vs)
  from Cons.prems obtain src where src: "map_of v2w v = Some src"
    by (cases "map_of v2w v") auto
  with Cons.prems
  have "group_valid v2w vs (AList.update src (get_list wv src @ [v]) wv) = Inr wv'" by simp
  from Cons.IH[OF this] set_update_subset[of src "get_list wv src @ [v]" wv] map_of_SomeD[OF src]
  show ?case by force
qed

lemma claim_layer2_spec:
  assumes "claim_layer2 word_locations items errors seen = Inr (errors', seen')"
  shows "\<exists>new. extends errors seen new errors' seen' \<and>
           (\<forall>e \<in> set new. f_layer e = 2 \<and> f_confidence e = High \<and>
              f_lines e = get_list word_locations (f_word e) \<and> f_word e \<in> fst ` set items)"
proof (rule claim_layer2_rule[where S = "set items" and P = "\<lambda>e s. \<exists>new. extends errors seen new e s \<and>
           (\<forall>e \<in> set new. f_layer e = 2 \<and> f_confidence e = High \<and>
              f_lines e = get_list word_locations (f_word e) \<and> f_word e \<in> fst ` set items)",
        OF _ _ assms], goal_cases)
  case 1
  show ?case by simp
next
  case 2
  show ?case using extends_refl[of errors seen] by (intro exI[of _ "[]"]) simp
next
  case (3 word valid_list best e s)
  from 3(2) obtain new where new: "extends errors seen new e s"
    "\<forall>e \<in> set new. f_layer e = 2 \<and> f_confidence e = High \<and>
              f_lines e = get_list word_locations (f_word e) \<and> f_word e \<in> fst ` set items"
    by blast
  let ?x = "\<lparr>f_word = word, f_correction = best,
             f_lines = get_list word_locations word, f_confidence = High, f_layer = 2\<rparr>"
  have "extends errors seen (new @ [?x]) (e @ [?x]) (insert (lower word) s)"
    using extends_step[OF new(1), of ?x] 3(3) by simp
  with new(2) 3(1) show ?case by (intro exI[of _ "new @ [?x]"]) force
qed

lemma layer2_spec:
  assumes "layer2 run order word_locations l2c errors seen = (calls, Inr (errors', seen'))"
  shows "\<exists>new. extends errors seen new errors' seen' \<and>
           (\<forall>e \<in> set new. layer2_finding word_locations l2c e)"
proof (cases "l2c = []")
  case True
  with assms have "errors' = errors" "seen' = seen" by (auto simp: layer2_def)
  then show ?thesis using extends_refl[of errors seen] by (intro exI[of _ "[]"]) simp
next
  case False
  obtain av v2w where cv: "collect_variants l2c [] [] = (av, v2w)"
    by (cases "collect_variants l2c [] []")
  obtain c vv where hv: "hunspell_batch_valid run order av = (c, vv)"
    by (cases "hunspell_batch_valid run order av")
  from assms False cv hv obtain wv where wv: "group_valid v2w vv [] = Inr wv"
    and cl: "claim_layer2 word_locations wv errors seen = Inr (errors', seen')"
    by (auto simp: layer2_def split: sum.splits)
  from claim_layer2_spec[OF cl] obtain new where new: "extends errors seen new errors' seen'"
    "\<forall>e \<in> set new. f_layer e = 2 \<and> f_confidence e = High \<and>
        f_lines e = get_list word_locations (f_word e) \<and> f_word e \<in> fst ` set wv" by blast
  have "fst ` set wv \<subseteq> fst ` set l2c"
  proof
    fix w assume "w \<in> fst ` set wv"
    then obtain p where p: "p \<in> set wv" "w = fst p" by auto
    with group_valid_spec[OF wv] have "w \<in> snd ` set v2w" by auto
    then obtain q where q: "q \<in> set v2w" "w = snd q" by auto
    with collect_variants_spec[OF cv] show "w \<in> fst ` set l2c" by auto
  qed
  with new show ?thesis by (intro exI[of _ new]) (auto simp: layer2_finding_def)
qed

lemma layer2_calls:
  "fst (layer2 run order word_locations l2c errors seen) =
     (if concat (map snd l2c) = [] then []
      else [(Mode_l, join [10] (concat (map snd l2c)))])"
proof (cases "l2c = []")
  case True
  then show ?thesis by (simp add: layer2_def)
next
  case False
  obtain av v2w where cv: "collect_variants l2c [] [] = (av, v2w)"
    by (cases "collect_variants l2c [] []")
  from collect_variants_spec[OF cv] have av: "av = concat (map snd l2c)" by simp
  show ?thesis using False cv av
    by (simp add: layer2_def hunspell_batch_valid_def split: prod.splits)
qed

lemma pass2_spec:
  assumes res: "pass2 whitelist amb_lookup amb_skip word_locations misspellings ws errors seen n
                = (errors', seen', n')"
    and below: "n < LAYER3_BRAKE"
  shows "\<exists>new. extends errors seen new errors' seen' \<and>
           (\<forall>e \<in> set new. layer3_finding whitelist amb_lookup amb_skip word_locations misspellings e) \<and>
           n' = n + length new \<and> n' \<le> LAYER3_BRAKE"
proof -
  let ?P = "\<lambda>e s c. \<exists>new. extends errors seen new e s \<and>
           (\<forall>e \<in> set new. layer3_finding whitelist amb_lookup amb_skip word_locations misspellings e) \<and>
           c = n + length new \<and> c \<le> LAYER3_BRAKE"
  have "case pass2 whitelist amb_lookup amb_skip word_locations misspellings ws errors seen n
        of (e, s, c) \<Rightarrow> ?P e s c"
  proof (rule pass2_rule[where S = "set ws"], goal_cases)
    case 1
    show ?case by simp
  next
    case 2
    show ?case using extends_refl[of errors seen] below by (intro exI[of _ "[]"]) simp
  next
    case 3
    show ?case by (rule below)
  next
    case (4 word correction e s c)
    from 4(2) obtain new where new: "extends errors seen new e s"
      "\<forall>e \<in> set new. layer3_finding whitelist amb_lookup amb_skip word_locations misspellings e"
      "c = n + length new" by blast
    let ?x = "\<lparr>f_word = word, f_correction = correction,
               f_lines = get_list word_locations word, f_confidence = Medium, f_layer = 3\<rparr>"
    have "extends errors seen (new @ [?x]) (e @ [?x]) (insert (lower word) s)"
      using extends_step[OF new(1), of ?x] 4(4) by simp
    moreover have "layer3_finding whitelist amb_lookup amb_skip word_locations misspellings ?x"
      using 4 by (simp add: layer3_finding_def)
    ultimately show ?case using new(2,3) 4(3) by (intro exI[of _ "new @ [?x]"]) auto
  qed
  with res show ?thesis by simp
qed

text \<open>The words that pass 2 claims are visited in the order of its word list.\<close>

lemma pass2_sorted:
  "\<exists>new. fst (pass2 whitelist amb_lookup amb_skip word_locations misspellings ws errors seen n)
          = errors @ new \<and>
        set (map f_word new) \<subseteq> set ws \<and>
        (sorted_wrt (<) ws \<longrightarrow> sorted_wrt (<) (map f_word new))"
proof (induction ws arbitrary: errors seen n)
  case Nil
  then show ?case by simp
next
  case (Cons word ws)
  let ?skip = "lower word \<in> seen \<or> is_identifier word \<or> length word < 3 \<or> \<not> any_swap word \<or>
     word \<in> fst ` set misspellings \<or>
     (case layer3_ambiguity word amb_lookup amb_skip whitelist of
        None \<Rightarrow> True | Some c \<Rightarrow> c = [] \<or> lower c = lower word)"
  show ?case
  proof (cases ?skip)
    case True
    from Cons.IH[of errors seen n] obtain new where
      "fst (pass2 whitelist amb_lookup amb_skip word_locations misspellings ws errors seen n)
         = errors @ new" "set (map f_word new) \<subseteq> set ws"
      "sorted_wrt (<) ws \<longrightarrow> sorted_wrt (<) (map f_word new)" by blast
    then show ?thesis unfolding pass2_skip[OF True] by (intro exI[of _ new]) auto
  next
    case False
    then obtain c where c: "layer3_ambiguity word amb_lookup amb_skip whitelist = Some c"
      "c \<noteq> []" "lower c \<noteq> lower word"
      by (cases "layer3_ambiguity word amb_lookup amb_skip whitelist") auto
    from False have pre: "lower word \<notin> seen" "\<not> is_identifier word" "3 \<le> length word"
      "any_swap word" "word \<notin> fst ` set misspellings" by auto
    let ?x = "\<lparr>f_word = word, f_correction = c,
               f_lines = get_list word_locations word, f_confidence = Medium, f_layer = 3\<rparr>"
    show ?thesis
    proof (cases "n + 1 \<ge> LAYER3_BRAKE")
      case True
      then show ?thesis unfolding pass2_claim[OF pre c] by (intro exI[of _ "[?x]"]) simp
    next
      case False
      from Cons.IH[of "errors @ [?x]" "insert (lower word) seen" "n + 1"] obtain new where new:
        "fst (pass2 whitelist amb_lookup amb_skip word_locations misspellings ws (errors @ [?x])
               (insert (lower word) seen) (n + 1)) = (errors @ [?x]) @ new"
        "set (map f_word new) \<subseteq> set ws"
        "sorted_wrt (<) ws \<longrightarrow> sorted_wrt (<) (map f_word new)" by blast
      have "sorted_wrt (<) (word # ws) \<longrightarrow> sorted_wrt (<) (map f_word (?x # new))"
        using new(2,3) by auto
      with new(1,2) False show ?thesis unfolding pass2_claim[OF pre c]
        by (intro exI[of _ "?x # new"]) auto
    qed
  qed
qed

lemma sorted_unique_strict: "sorted_wrt (<) (sorted_unique word_locations)"
  by (simp add: sorted_unique_def strict_sorted_iff)

lemma set_sorted_unique: "set (sorted_unique word_locations) = fst ` set word_locations"
  by (simp add: sorted_unique_def)

lemma hunspell_check_text_calls: "fst (hunspell_check_text run text) = [(Mode_a, text)]"
  by (simp add: hunspell_check_text_def)

lemma extends_mono: "extends errors seen new errors' seen' \<Longrightarrow> seen \<subseteq> seen'"
  by (auto simp: extends_def)

lemma pass1_seen_mono:
  "pass1 whitelist word_locations items errors seen l2c = (errors', seen', l2c') \<Longrightarrow> seen \<subseteq> seen'"
  using pass1_spec extends_mono by blast

text \<open>One round of the loop of pass 1.\<close>

lemma pass1_skip:
  assumes "lower word \<in> seen \<or> length word < 3 \<or> is_identifier word \<or> lower word \<in> whitelist"
  shows "pass1 whitelist word_locations ((word, suggestions) # items) errors seen l2c
       = pass1 whitelist word_locations items errors seen l2c"
  using assms by (auto simp: Let_def)

lemma pass1_claim:
  assumes "lower word \<notin> seen" "3 \<le> length word" "\<not> is_identifier word"
    "lower word \<notin> whitelist" "layer1_suggestion word suggestions = Some c" "c \<noteq> []"
  shows "pass1 whitelist word_locations ((word, suggestions) # items) errors seen l2c
       = pass1 whitelist word_locations items
           (errors @ [\<lparr>f_word = word, f_correction = c,
               f_lines = get_list word_locations word, f_confidence = High, f_layer = 1\<rparr>])
           (insert (lower word) seen) l2c"
  using assms by (simp add: Let_def)

lemma pass1_keep:
  assumes "lower word \<notin> seen" "3 \<le> length word" "\<not> is_identifier word"
    "lower word \<notin> whitelist"
    "layer1_suggestion word suggestions = None \<or> layer1_suggestion word suggestions = Some []"
  shows "pass1 whitelist word_locations ((word, suggestions) # items) errors seen l2c
       = pass1 whitelist word_locations items errors seen (keep_variants word l2c)"
  using assms by (auto simp: Let_def)

text \<open>Pass 1 leaves no eligible word with a Layer 1 correction unclaimed.\<close>

lemma pass1_complete:
  assumes "pass1 whitelist word_locations items errors seen l2c = (errors', seen', l2c')"
    and "(word, suggestions) \<in> set items"
    and "3 \<le> length word" "\<not> is_identifier word" "lower word \<notin> whitelist"
    and "layer1_suggestion word suggestions = Some c" "c \<noteq> []"
  shows "lower word \<in> seen'"
  using assms(1,2)
proof (induction items arbitrary: errors seen l2c)
  case Nil
  then show ?case by simp
next
  case (Cons item items)
  obtain w0 s0 where item: "item = (w0, s0)" by (cases item)
  show ?case
  proof (cases "(word, suggestions) = (w0, s0)")
    case True
    show ?thesis
    proof (cases "lower word \<in> seen")
      case True
      with pass1_seen_mono[OF Cons.prems(1)] show ?thesis by auto
    next
      case False
      let ?x = "\<lparr>f_word = word, f_correction = c,
               f_lines = get_list word_locations word, f_confidence = High, f_layer = 1\<rparr>"
      from True item Cons.prems(1)
      have "pass1 whitelist word_locations items (errors @ [?x]) (insert (lower word) seen) l2c
            = (errors', seen', l2c')"
        unfolding item using pass1_claim[OF False assms(3-7), of word_locations items errors l2c]
        by simp
      from pass1_seen_mono[OF this] show ?thesis by simp
    qed
  next
    case False
    with Cons.prems(2) item have mem: "(word, suggestions) \<in> set items" by auto
    have "\<exists>e1 s1 l1. pass1 whitelist word_locations (item # items) errors seen l2c
       = pass1 whitelist word_locations items e1 s1 l1"
    proof (cases "lower w0 \<in> seen \<or> length w0 < 3 \<or> is_identifier w0 \<or> lower w0 \<in> whitelist")
      case True
      from pass1_skip[OF True] show ?thesis unfolding item by blast
    next
      case False
      then have el: "lower w0 \<notin> seen" "3 \<le> length w0" "\<not> is_identifier w0"
        "lower w0 \<notin> whitelist" by auto
      show ?thesis
      proof (cases "layer1_suggestion w0 s0 = None \<or> layer1_suggestion w0 s0 = Some []")
        case True
        from pass1_keep[OF el True] show ?thesis unfolding item by blast
      next
        case False
        then obtain c0 where "layer1_suggestion w0 s0 = Some c0" "c0 \<noteq> []" by auto
        from pass1_claim[OF el this] show ?thesis unfolding item by blast
      qed
    qed
    then obtain e1 s1 l1 where
      "pass1 whitelist word_locations (item # items) errors seen l2c
       = pass1 whitelist word_locations items e1 s1 l1" by blast
    with Cons.prems(1) Cons.IH[OF _ mem] show ?thesis by simp
  qed
qed

text \<open>
  Pass 2 leaves an eligible word unclaimed only when the brake has ended it.
\<close>

lemma pass2_complete:
  assumes "pass2 whitelist amb_lookup amb_skip word_locations misspellings ws errors seen n
           = (errors', seen', n')"
    and "n < LAYER3_BRAKE"
    and "word \<in> set ws"
    and "\<not> is_identifier word" "3 \<le> length word" "any_swap word"
    and "word \<notin> fst ` set misspellings"
    and "layer3_ambiguity word amb_lookup amb_skip whitelist = Some c"
    and "c \<noteq> []" "lower c \<noteq> lower word"
  shows "lower word \<in> seen' \<or> n' = LAYER3_BRAKE"
  using assms(1,2,3)
proof (induction ws arbitrary: errors seen n)
  case Nil
  then show ?case by simp
next
  case (Cons w ws)
  let ?skip = "lower w \<in> seen \<or> is_identifier w \<or> length w < 3 \<or> \<not> any_swap w \<or>
     w \<in> fst ` set misspellings \<or>
     (case layer3_ambiguity w amb_lookup amb_skip whitelist of
        None \<Rightarrow> True | Some c \<Rightarrow> c = [] \<or> lower c = lower w)"
  have mono: "\<And>ws errors seen n. n < LAYER3_BRAKE \<Longrightarrow>
      pass2 whitelist amb_lookup amb_skip word_locations misspellings ws errors seen n
        = (errors', seen', n') \<Longrightarrow> seen \<subseteq> seen'"
    using pass2_spec extends_mono by blast
  show ?case
  proof (cases ?skip)
    case True
    with Cons.prems(1) have rest:
      "pass2 whitelist amb_lookup amb_skip word_locations misspellings ws errors seen n
         = (errors', seen', n')" unfolding pass2_skip[OF True] by simp
    show ?thesis
    proof (cases "word = w")
      case True
      with \<open>?skip\<close> assms(4-10) have "lower word \<in> seen" by auto
      with mono[OF Cons.prems(2) rest] show ?thesis by auto
    next
      case False
      with Cons.prems(3) have "word \<in> set ws" by simp
      from Cons.IH[OF rest Cons.prems(2) this] show ?thesis .
    qed
  next
    case False
    then obtain c' where c': "layer3_ambiguity w amb_lookup amb_skip whitelist = Some c'"
      "c' \<noteq> []" "lower c' \<noteq> lower w"
      by (cases "layer3_ambiguity w amb_lookup amb_skip whitelist") auto
    from False have pre: "lower w \<notin> seen" "\<not> is_identifier w" "3 \<le> length w"
      "any_swap w" "w \<notin> fst ` set misspellings" by auto
    let ?x = "\<lparr>f_word = w, f_correction = c',
               f_lines = get_list word_locations w, f_confidence = Medium, f_layer = 3\<rparr>"
    show ?thesis
    proof (cases "n + 1 \<ge> LAYER3_BRAKE")
      case True
      with Cons.prems(1,2) show ?thesis unfolding pass2_claim[OF pre c'] by auto
    next
      case nb: False
      with Cons.prems(1) have rest:
        "pass2 whitelist amb_lookup amb_skip word_locations misspellings ws (errors @ [?x])
           (insert (lower w) seen) (n + 1) = (errors', seen', n')"
        unfolding pass2_claim[OF pre c'] by simp
      from nb have below: "n + 1 < LAYER3_BRAKE" by simp
      show ?thesis
      proof (cases "word = w")
        case True
        with mono[OF below rest] show ?thesis by auto
      next
        case False
        with Cons.prems(3) have "word \<in> set ws" by simp
        from Cons.IH[OF rest below this] show ?thesis .
      qed
    qed
  qed
qed

text \<open>The run of \<open>detect\<close> that ends with a list of findings, taken apart.\<close>

lemma detect_Inr:
  assumes "detect env content = (calls, Inr errors)"
  obtains misspellings new1 l2c new2 new3 seen where
    "hunspell_check_text (env_hunspell env) (words_text content)
       = ([(Mode_a, words_text content)], Inr misspellings)"
    "errors = new1 @ new2 @ new3"
    "extends [] {} (new1 @ new2 @ new3) errors seen"
    "\<forall>e \<in> set new1. layer1_finding (env_whitelist env)
        (word_index (strip_non_prose content)) misspellings e"
    "\<forall>c \<in> set l2c. layer2_candidate misspellings c"
    "\<forall>e \<in> set new2. layer2_finding (word_index (strip_non_prose content)) l2c e"
    "\<forall>e \<in> set new3. layer3_finding (env_whitelist env) (env_amb_lookup env) (env_amb_skip env)
        (word_index (strip_non_prose content)) misspellings e"
    "length new3 \<le> LAYER3_BRAKE"
    "sorted_wrt (<) (map f_word new3)"
    "f_word ` set new3 \<subseteq> fst ` set (word_index (strip_non_prose content))"
    "calls = (Mode_a, words_text content) #
       (if concat (map snd l2c) = [] then []
        else [(Mode_l, join [10] (concat (map snd l2c)))])"
    "\<And>word suggestions c. (word, suggestions) \<in> set misspellings \<Longrightarrow> 3 \<le> length word \<Longrightarrow>
       \<not> is_identifier word \<Longrightarrow> lower word \<notin> env_whitelist env \<Longrightarrow>
       layer1_suggestion word suggestions = Some c \<Longrightarrow> c \<noteq> [] \<Longrightarrow>
       lower word \<in> (\<lambda>e. lower (f_word e)) ` set new1"
    "\<And>word c. word \<in> fst ` set (word_index (strip_non_prose content)) \<Longrightarrow>
       \<not> is_identifier word \<Longrightarrow> 3 \<le> length word \<Longrightarrow> any_swap word \<Longrightarrow>
       word \<notin> fst ` set misspellings \<Longrightarrow>
       layer3_ambiguity word (env_amb_lookup env) (env_amb_skip env) (env_whitelist env) = Some c \<Longrightarrow>
       c \<noteq> [] \<Longrightarrow> lower c \<noteq> lower word \<Longrightarrow>
       lower word \<in> (\<lambda>e. lower (f_word e)) ` set errors \<or> length new3 = LAYER3_BRAKE"
proof -
  let ?idx = "word_index (strip_non_prose content)"
  let ?ws = "sorted_unique ?idx"
  let ?text = "words_text content"
  have wt: "join [10] ?ws = ?text" by (simp add: words_text_def)
  obtain calls1 r1 where h: "hunspell_check_text (env_hunspell env) ?text = (calls1, r1)"
    by (cases "hunspell_check_text (env_hunspell env) ?text")
  with hunspell_check_text_calls[of "env_hunspell env" ?text]
  have calls1: "calls1 = [(Mode_a, ?text)]" by simp
  from assms h wt obtain misspellings where r1: "r1 = Inr misspellings"
    by (cases r1) (auto simp: detect_def Let_def)
  obtain errors1 seen1 l2c where p1:
    "pass1 (env_whitelist env) ?idx misspellings [] {} [] = (errors1, seen1, l2c)"
    by (cases "pass1 (env_whitelist env) ?idx misspellings [] {} []")
  obtain calls2 r2 where l2:
    "layer2 (env_hunspell env) (env_set_order env) ?idx l2c errors1 seen1 = (calls2, r2)"
    by (cases "layer2 (env_hunspell env) (env_set_order env) ?idx l2c errors1 seen1")
  from assms h wt r1 p1 l2 obtain errors2 seen2 where r2: "r2 = Inr (errors2, seen2)"
    by (cases r2) (auto simp: detect_def Let_def)
  obtain errors3 seen3 n3 where p2:
    "pass2 (env_whitelist env) (env_amb_lookup env) (env_amb_skip env) ?idx misspellings ?ws
       errors2 seen2 0 = (errors3, seen3, n3)"
    by (cases "pass2 (env_whitelist env) (env_amb_lookup env) (env_amb_skip env) ?idx
                 misspellings ?ws errors2 seen2 0") 
  from assms h wt r1 p1 l2 r2 p2 have res: "errors = errors3" "calls = calls1 @ calls2"
    by (auto simp: detect_def Let_def)
  from pass1_spec[OF p1] obtain new1 where n1: "extends [] {} new1 errors1 seen1"
    "\<forall>e \<in> set new1. layer1_finding (env_whitelist env) ?idx misspellings e"
    "\<forall>c \<in> set l2c. layer2_candidate misspellings c" by auto
  from layer2_spec[OF l2[unfolded r2]] obtain new2 where n2:
    "extends errors1 seen1 new2 errors2 seen2"
    "\<forall>e \<in> set new2. layer2_finding ?idx l2c e" by blast
  have b: "0 < LAYER3_BRAKE" by (simp add: LAYER3_BRAKE_def)
  from pass2_spec[OF p2 b] obtain new3 where n3: "extends errors2 seen2 new3 errors3 seen3"
    "\<forall>e \<in> set new3. layer3_finding (env_whitelist env) (env_amb_lookup env) (env_amb_skip env)
        ?idx misspellings e" "n3 = 0 + length new3" "n3 \<le> LAYER3_BRAKE" by blast
  from pass2_sorted[of "env_whitelist env" "env_amb_lookup env" "env_amb_skip env" ?idx
      misspellings ?ws errors2 seen2 0] p2 n3(1)
  have srt: "set (map f_word new3) \<subseteq> set ?ws" "sorted_wrt (<) (map f_word new3)"
    using sorted_unique_strict[of ?idx] by (auto simp: extends_def)
  have ext: "extends [] {} (new1 @ new2 @ new3) errors seen3"
    using extends_trans[OF extends_trans[OF n1(1) n2(1)] n3(1)] res by simp
  then have e: "errors = new1 @ new2 @ new3" by (simp add: extends_def)
  have c2: "calls2 = (if concat (map snd l2c) = [] then []
        else [(Mode_l, join [10] (concat (map snd l2c)))])"
    using layer2_calls[of "env_hunspell env" "env_set_order env" ?idx l2c errors1 seen1] l2
    by simp
  show ?thesis
  proof (rule that[of misspellings new1 new2 new3 seen3 l2c])
    show "hunspell_check_text (env_hunspell env) ?text = ([(Mode_a, ?text)], Inr misspellings)"
      using h calls1 r1 by simp
    show "errors = new1 @ new2 @ new3" by (rule e)
    show "extends [] {} (new1 @ new2 @ new3) errors seen3" by (rule ext)
    show "\<forall>e \<in> set new1. layer1_finding (env_whitelist env) ?idx misspellings e" by (rule n1(2))
    show "\<forall>c \<in> set l2c. layer2_candidate misspellings c" by (rule n1(3))
    show "\<forall>e \<in> set new2. layer2_finding ?idx l2c e" by (rule n2(2))
    show "\<forall>e \<in> set new3. layer3_finding (env_whitelist env) (env_amb_lookup env)
        (env_amb_skip env) ?idx misspellings e" by (rule n3(2))
    show "length new3 \<le> LAYER3_BRAKE" using n3(3,4) by simp
    show "sorted_wrt (<) (map f_word new3)" by (rule srt(2))
    show "f_word ` set new3 \<subseteq> fst ` set ?idx" using srt(1) set_sorted_unique[of ?idx] by simp
    show "calls = (Mode_a, ?text) # (if concat (map snd l2c) = [] then []
        else [(Mode_l, join [10] (concat (map snd l2c)))])"
      using res(2) calls1 c2 by simp
  next
    fix word suggestions c
    assume "(word, suggestions) \<in> set misspellings" "3 \<le> length word"
      "\<not> is_identifier word" "lower word \<notin> env_whitelist env"
      "layer1_suggestion word suggestions = Some c" "c \<noteq> []"
    from pass1_complete[OF p1 this] n1(1)
    show "lower word \<in> (\<lambda>e. lower (f_word e)) ` set new1" by (simp add: extends_def)
  next
    fix word c
    assume w: "word \<in> fst ` set ?idx"
      and rest: "\<not> is_identifier word" "3 \<le> length word" "any_swap word"
      "word \<notin> fst ` set misspellings"
      "layer3_ambiguity word (env_amb_lookup env) (env_amb_skip env) (env_whitelist env) = Some c"
      "c \<noteq> []" "lower c \<noteq> lower word"
    from w have "word \<in> set ?ws" by (simp add: set_sorted_unique)
    from pass2_complete[OF p2 b this rest] ext n3(3)
    show "lower word \<in> (\<lambda>e. lower (f_word e)) ` set errors \<or> length new3 = LAYER3_BRAKE"
      by (auto simp: extends_def)
  qed
qed

section \<open>Words without a substitutable letter\<close>

lemma SWAP_MAP_dom: "(SWAP_MAP c \<noteq> None) = base12 c"
  by (simp add: SWAP_MAP_def base12_def)

lemma DIACRITICS_MAP_Some:
  assumes "DIACRITICS_MAP c = Some a"
  shows "base12 a \<and> \<not> base12 c \<and> a \<noteq> 304"
proof -
  from assms have "(c, a) \<in> set [(231, 99), (199, 67), (287, 103), (286, 71), (305, 105),
      (304, 73), (246, 111), (214, 79), (351, 115), (350, 83), (252, 117), (220, 85::nat)]"
    unfolding DIACRITICS_MAP_def by (rule map_of_SomeD)
  then show ?thesis by (auto simp: base12_def)
qed

lemma DIACRITICS_MAP_304: "DIACRITICS_MAP 304 = Some 73"
  by (simp add: DIACRITICS_MAP_def)

lemma lower_cp_base6:
  assumes "c \<noteq> 304"
  shows "length (filter base6 (lower_cp c)) = (if base12 c then 1 else 0)"
proof -
  consider "65 \<le> c \<and> c \<le> 90" | "c < 65" | "90 < c \<and> c < 192" | "192 \<le> c"
    by linarith
  then show ?thesis
  proof cases
    case 1
    then show ?thesis by (auto simp: lower_cp_def base6_def base12_def)
  next
    case 2
    then show ?thesis by (auto simp: lower_cp_def base6_def base12_def)
  next
    case 3
    then show ?thesis by (auto simp: lower_cp_def base6_def base12_def)
  next
    case 4
    with assms show ?thesis by (auto simp: lower_cp_def base6_def base12_def)
  qed
qed

lemma lower_base6:
  "304 \<notin> set s \<Longrightarrow> length (filter base6 (lower s)) = length (filter base12 s)"
proof (induction s)
  case Nil
  then show ?case by (simp add: lower_def)
next
  case (Cons c s)
  then have "c \<noteq> 304" and IH: "length (filter base6 (lower s)) = length (filter base12 s)"
    by auto
  from lower_cp_base6[OF this(1)] IH show ?case by (simp add: lower_def)
qed

lemma ascii_fold_no_304: "304 \<notin> set (ascii_fold s)"
proof (induction s)
  case Nil
  then show ?case by (simp add: ascii_fold_def)
next
  case (Cons c s)
  have "(case DIACRITICS_MAP c of Some a \<Rightarrow> a | None \<Rightarrow> c) \<noteq> 304"
  proof (cases "DIACRITICS_MAP c")
    case None
    with DIACRITICS_MAP_304 show ?thesis by auto
  next
    case (Some a)
    with DIACRITICS_MAP_Some[OF Some] show ?thesis by simp
  qed
  with Cons show ?case by (simp add: ascii_fold_def)
qed

lemma ascii_fold_base12:
  "length (filter base12 (ascii_fold s)) = count_diacritics s + length (filter base12 s)"
proof (induction s)
  case Nil
  then show ?case by (simp add: ascii_fold_def count_diacritics_def)
next
  case (Cons c s)
  show ?case
  proof (cases "DIACRITICS_MAP c")
    case None
    with Cons show ?thesis by (simp add: ascii_fold_def count_diacritics_def)
  next
    case (Some a)
    with Cons DIACRITICS_MAP_Some[OF Some] show ?thesis
      by (simp add: ascii_fold_def count_diacritics_def)
  qed
qed

lemma folded_base6:
  "length (filter base6 (lower (ascii_fold s))) = count_diacritics s + length (filter base12 s)"
  using lower_base6[OF ascii_fold_no_304[of s]] ascii_fold_base12[of s] by simp

lemma any_swap_base12: "any_swap word = (filter base12 word \<noteq> [])"
  unfolding any_swap_def SWAP_MAP_dom by (simp add: filter_empty_conv)

lemma layer1_needs_swap:
  assumes "layer1_suggestion word suggestions = Some s"
  shows "any_swap word"
proof (rule ccontr)
  assume "\<not> any_swap word"
  then have w: "length (filter base12 word) = 0" by (simp add: any_swap_base12)
  from assms have "lower (ascii_fold s) = lower (ascii_fold word)"
    and more: "count_diacritics word < count_diacritics s"
    unfolding layer1_suggestion_find by (auto dest: find_Some_iff[THEN iffD1])
  then have "length (filter base6 (lower (ascii_fold s)))
             = length (filter base6 (lower (ascii_fold word)))" by simp
  with w have "count_diacritics s + length (filter base12 s) = count_diacritics word"
    by (simp add: folded_base6)
  with more show False by simp
qed

section \<open>The matcher and the word index\<close>

text \<open>What a match of the tokenizer's pattern spans: at least one character, all letters.\<close>

lemma run_length_nth:
  assumes "j < run_length P s p"
  shows "p + j < length s \<and> P (s ! (p + j))"
proof -
  let ?xs = "drop p s"
  from assms have j: "j < length (takeWhile P ?xs)" by (simp add: run_length_def)
  then have "takeWhile P ?xs ! j \<in> set (takeWhile P ?xs)" by simp
  then have P: "P (takeWhile P ?xs ! j)" by (rule set_takeWhileD[THEN conjunct2])
  from j have eq: "takeWhile P ?xs ! j = ?xs ! j" by (rule takeWhile_nth)
  from j length_takeWhile_le[of P ?xs] have "j < length ?xs" by simp
  then have "p + j < length s" by simp
  with P eq show ?thesis by simp
qed

lemma step_many1:
  assumes "st' \<in> set (step (many1 P) s st)"
  shows "fst st < fst st' \<and> fst st' \<le> length s \<and> snd st' = snd st \<and>
         (\<forall>k. fst st \<le> k \<and> k < fst st' \<longrightarrow> P (s ! k))"
proof -
  from assms obtain k where k: "fst st < length s" "P (s ! fst st)"
    "k \<le> run_length P s (fst st + 1)" "st' = (fst st + 1 + k, snd st)"
    by (auto simp: many1_def split: if_splits)
  have "\<forall>j. fst st \<le> j \<and> j < fst st + 1 + k \<longrightarrow> P (s ! j)"
  proof (intro allI impI)
    fix j assume j: "fst st \<le> j \<and> j < fst st + 1 + k"
    show "P (s ! j)"
    proof (cases "j = fst st")
      case True
      with k(2) show ?thesis by simp
    next
      case False
      with j k(3) have "j - (fst st + 1) < run_length P s (fst st + 1)" by linarith
      from run_length_nth[OF this] False j show ?thesis by simp
    qed
  qed
  moreover have "fst st + 1 + k \<le> length s"
  proof (cases k)
    case 0
    with k(1) show ?thesis by simp
  next
    case (Suc m)
    with k(3) have "m < run_length P s (fst st + 1)" by simp
    from run_length_nth[OF this] Suc show ?thesis by simp
  qed
  ultimately show ?thesis using k(4) by simp
qed

lemma step_Wordb: "st' \<in> set (step Wordb s st) \<Longrightarrow> st' = st"
  by (simp split: if_splits)

lemma step_RE_WORD:
  assumes "st' \<in> set (step RE_WORD s st)"
  shows "fst st < fst st' \<and> fst st' \<le> length s \<and>
         (\<forall>k. fst st \<le> k \<and> k < fst st' \<longrightarrow> is_letter (s ! k))"
proof -
  from assms obtain a b where a: "a \<in> set (step Wordb s st)"
    and b: "b \<in> set (step (many1 is_letter) s a)"
    and c: "st' \<in> set (step Wordb s b)"
    by (auto simp: RE_WORD_def seqs_def)
  from step_Wordb[OF a] step_Wordb[OF c] step_many1[OF b] show ?thesis by simp
qed

lemma set_slice:
  assumes "e \<le> length s"
  shows "set (slice s i e) = {s ! k | k. i \<le> k \<and> k < e}"
proof -
  have "slice s i e = map ((!) s) [i ..< e]"
    using assms by (auto simp: slice_def intro!: nth_equalityI)
  then show ?thesis by auto
qed

lemma findall_loop_elem:
  "w \<in> set (findall_loop r s i) \<Longrightarrow>
     \<exists>j st. st \<in> set (step r s (j, None)) \<and> w = slice s j (fst st)"
proof (induction r s i rule: findall_loop.induct)
  case (1 r s i)
  show ?case
  proof (cases "i > length s")
    case True
    with "1.prems" show ?thesis by simp
  next
    case le: False
    show ?thesis
    proof (cases "step r s (i, None)")
      case Nil
      with le "1.prems" have lt: "i < length s" and "w \<in> set (findall_loop r s (i + 1))"
        by (auto split: if_splits)
      from "1.IH"(1)[OF le Nil lt this(2)] show ?thesis .
    next
      case (Cons st sts)
      then have here: "st \<in> set (step r s (i, None))" by simp
      show ?thesis
      proof (cases "w = slice s i (fst st)")
        case True
        with here show ?thesis by blast
      next
        case False
        show ?thesis
        proof (cases "fst st \<le> i")
          case True
          with le Cons False "1.prems" have lt: "i < length s"
            and "w \<in> set (findall_loop r s (i + 1))" by (auto split: if_splits)
          from "1.IH"(2)[OF le Cons True lt this(2)] show ?thesis .
        next
          case adv: False
          with le Cons False "1.prems" have "w \<in> set (findall_loop r s (fst st))"
            by (auto split: if_splits)
          from "1.IH"(3)[OF le Cons adv this] show ?thesis .
        qed
      qed
    qed
  qed
qed

lemma findall_RE_WORD:
  assumes "w \<in> set (findall RE_WORD line)"
  shows "w \<noteq> [] \<and> (\<forall>c \<in> set w. is_letter c)"
proof -
  from assms findall_loop_elem[of w RE_WORD line 0] obtain j st where
    st: "st \<in> set (step RE_WORD line (j, None))" and w: "w = slice line j (fst st)"
    by (auto simp: findall_def)
  from step_RE_WORD[OF st] have p: "j < fst st" "fst st \<le> length line"
    "\<forall>k. j \<le> k \<and> k < fst st \<longrightarrow> is_letter (line ! k)" by auto
  from set_slice[OF p(2), of j] p(3) w have "\<forall>c \<in> set w. is_letter c" by auto
  moreover from p(1,2) w have "w \<noteq> []" by (auto simp: slice_def)
  ultimately show ?thesis by simp
qed

lemma update_keys_subset: "fst ` set (AList.update k v al) \<subseteq> insert k (fst ` set al)"
  using set_update_subset[of k v al] by auto

lemma index_line_keys:
  "fst ` set (index_line n ws idx) \<subseteq> fst ` set idx \<union> {w \<in> set ws. 2 \<le> length w}"
proof (induction ws arbitrary: idx)
  case Nil
  then show ?case by simp
next
  case (Cons w ws)
  show ?case
  proof (cases "length w < 2")
    case True
    with Cons[of idx] show ?thesis by auto
  next
    case False
    let ?idx = "AList.update w (get_list idx w @ [n]) idx"
    from False have "index_line n (w # ws) idx = index_line n ws ?idx" by simp
    moreover note Cons[of ?idx]
    moreover note update_keys_subset[of w "get_list idx w @ [n]" idx]
    moreover from False have "2 \<le> length w" by simp
    ultimately show ?thesis by (simp only: set_simps) blast
  qed
qed

lemma index_lines_keys:
  "fst ` set (index_lines n ls idx) \<subseteq>
     fst ` set idx \<union> {w. 2 \<le> length w \<and> (\<exists>line \<in> set ls. w \<in> set (findall RE_WORD line))}"
proof (induction ls arbitrary: n idx)
  case Nil
  then show ?case by simp
next
  case (Cons line ls)
  from Cons[of "n + 1" "index_line n (findall RE_WORD line) idx"]
    index_line_keys[of n "findall RE_WORD line" idx]
  show ?case by auto
qed

lemma word_index_key:
  assumes "word \<in> fst ` set (word_index prose)"
  shows "2 \<le> length word \<and> (\<forall>c \<in> set word. is_letter c)"
  using assms index_lines_keys[of 1 "splitlines prose" "[]"] findall_RE_WORD
  by (auto simp: word_index_def)

text \<open>
  \<open>fullmatch\<close> on an alternation tries each alternative; the snake_case and kebab-case
  alternatives need their sign in the word.
\<close>

lemma fullmatch_Alt: "fullmatch (Alt a b) s = (fullmatch a s \<or> fullmatch b s)"
  by (auto simp: fullmatch_def)

lemma is_identifier_alts:
  "is_identifier word =
     (fullmatch RE_CAMEL word \<or> fullmatch RE_SNAKE word \<or> fullmatch RE_CAPS word \<or>
      fullmatch RE_KEBAB word)"
  by (simp add: is_identifier_def RE_IDENTIFIER_def fullmatch_Alt)

lemma step_Cls: "st' \<in> set (step (Cls P) s st) \<Longrightarrow> fst st < length s \<and> P (s ! fst st)"
  by (simp split: if_splits)

lemma fullmatch_RE_SNAKE: "fullmatch RE_SNAKE word \<Longrightarrow> 95 \<in> set word"
proof -
  assume "fullmatch RE_SNAKE word"
  then obtain a b where "b \<in> set (step (Cls (\<lambda>c. c = 95)) word a)"
    by (auto simp: fullmatch_def RE_SNAKE_def seqs_def)
  from step_Cls[OF this] show ?thesis by (metis nth_mem)
qed

lemma fullmatch_RE_KEBAB: "fullmatch RE_KEBAB word \<Longrightarrow> 45 \<in> set word"
proof -
  assume "fullmatch RE_KEBAB word"
  then obtain a b where "b \<in> set (step (Cls (\<lambda>c. c = 45)) word a)"
    by (auto simp: fullmatch_def RE_KEBAB_def seqs_def)
  from step_Cls[OF this] show ?thesis by (metis nth_mem)
qed

lemma is_letter_no_sign: "is_letter c \<Longrightarrow> c \<noteq> 95 \<and> c \<noteq> 45 \<and> \<not> (48 \<le> c \<and> c \<le> 57)"
  by (auto simp: is_letter_def is_az_def is_lower_az_def is_upper_az_def)

section \<open>The example run, evaluated\<close>

text \<open>The definitions that evaluate the functions on strings, the matcher and the layers.\<close>

lemmas ev_str = u_def join_def strip_def split_on_def split_first_def split_ws_def is_space_def
  splitlines_def is_linebreak_def slice_def get_list_def startswith_def
lemmas ev_re = seqs_def many1_def opt_def one_to_three_def lit_def run_length_def re_sub_def
  findall_def fullmatch_def expand_def any_char_def not_char_def is_word_def
lemmas ev_strip = RE_FRONT_MATTER_def RE_FENCE_BACKTICK_def RE_FENCE_TILDE_def
  RE_INLINE_CODE_def RE_IMPORT_EXPORT_def RE_TAG_def RE_BRACES_def RE_URL_def RE_IMAGE_def
  RE_LINK_def RE_FOOTNOTE_def RE_BDI_VAR_def RE_COMMENT_def RE_HEADING_def RE_EMPHASIS_def
lemmas ev_words = word_index_def RE_WORD_def is_letter_def is_az_def is_lower_az_def
  is_upper_az_def is_identifier_def RE_IDENTIFIER_def RE_CAMEL_def RE_SNAKE_def RE_CAPS_def
  RE_KEBAB_def sorted_unique_def
lemmas ev_layers = lower_def lower_cp_def layer1_suggestion_def generate_variants_def
  any_swap_def SWAP_MAP_def DIACRITICS_MAP_def positions_def count_diacritics_def ascii_fold_def
  enumerate_eq_zip layer3_ambiguity_def keep_variants_def LAYER3_BRAKE_def

lemma ex_prose: "strip_non_prose example_content = u ''ornek sut agac''"
  unfolding strip_non_prose_def Let_def example_content_def by (simp add: ev_str ev_re ev_strip)

lemma ex_index:
  "word_index (u ''ornek sut agac'') = [(u ''ornek'', [1]), (u ''sut'', [1]), (u ''agac'', [1])]"
  by (simp add: ev_str ev_re ev_words)

lemma ex_text: "words_text example_content = u ''agac'' @ [10] @ u ''ornek'' @ [10] @ u ''sut''"
  unfolding words_text_def ex_prose ex_index by (simp add: sorted_unique_def join_def u_def)

lemma ex_check:
  "hunspell_check_text (env_hunspell example_env) (words_text example_content) =
     ([(Mode_a, words_text example_content)],
      Inr [(u ''ornek'', [[246] @ u ''rnek'']), (u ''sut'', [])])"
  by (simp add: hunspell_check_text_def example_env_def example_answer_a_def ev_str)

lemma ex_pass1:
  "pass1 {} [(u ''ornek'', [1]), (u ''sut'', [1]), (u ''agac'', [1])]
     [(u ''ornek'', [[246] @ u ''rnek'']), (u ''sut'', [])] [] {} [] =
   ([\<lparr>f_word = u ''ornek'', f_correction = [246] @ u ''rnek'', f_lines = [1],
        f_confidence = High, f_layer = 1\<rparr>], {u ''ornek''},
    [(u ''sut'', [[115, 252, 116], [351, 117, 116], [351, 252, 116]])])"
  by (simp add: ev_layers ev_words ev_re ev_str Let_def)

lemma ex_layer2:
  "layer2 (env_hunspell example_env) id [(u ''ornek'', [1]), (u ''sut'', [1]), (u ''agac'', [1])]
     [(u ''sut'', [[115, 252, 116], [351, 117, 116], [351, 252, 116]])]
     [\<lparr>f_word = u ''ornek'', f_correction = [246] @ u ''rnek'', f_lines = [1],
        f_confidence = High, f_layer = 1\<rparr>] {u ''ornek''} =
   ([(Mode_l, [115, 252, 116, 10, 351, 117, 116, 10, 351, 252, 116])],
    Inr ([\<lparr>f_word = u ''ornek'', f_correction = [246] @ u ''rnek'', f_lines = [1],
            f_confidence = High, f_layer = 1\<rparr>,
          \<lparr>f_word = u ''sut'', f_correction = [115, 252, 116], f_lines = [1],
            f_confidence = High, f_layer = 2\<rparr>], {u ''sut'', u ''ornek''}))"
  by (simp add: layer2_def hunspell_batch_valid_def example_env_def ev_layers ev_str Let_def)

lemma ex_pass2:
  "pass2 {} [u ''agac'' \<mapsto> [97, 287, 97, 231]] {}
     [(u ''ornek'', [1]), (u ''sut'', [1]), (u ''agac'', [1])]
     [(u ''ornek'', [[246] @ u ''rnek'']), (u ''sut'', [])]
     [u ''agac'', u ''ornek'', u ''sut'']
     [\<lparr>f_word = u ''ornek'', f_correction = [246] @ u ''rnek'', f_lines = [1],
            f_confidence = High, f_layer = 1\<rparr>,
          \<lparr>f_word = u ''sut'', f_correction = [115, 252, 116], f_lines = [1],
            f_confidence = High, f_layer = 2\<rparr>] {u ''sut'', u ''ornek''} 0 =
   (example_errors, {u ''agac'', u ''sut'', u ''ornek''}, 1)"
  by (simp add: example_errors_def ev_layers ev_words ev_re ev_str Let_def)

lemma ex_detect:
  "detect example_env example_content =
     ([(Mode_a, u ''agac'' @ [10] @ u ''ornek'' @ [10] @ u ''sut''),
       (Mode_l, [115, 252, 116, 10, 351, 117, 116, 10, 351, 252, 116])],
      Inr example_errors)"
proof -
  have su: "sorted_unique [(u ''ornek'', [1]), (u ''sut'', [1]), (u ''agac'', [1])]
            = [u ''agac'', u ''ornek'', u ''sut'']"
    by (simp add: sorted_unique_def u_def)
  have env: "env_whitelist example_env = {}"
    "env_amb_lookup example_env = [u ''agac'' \<mapsto> [97, 287, 97, 231]]"
    "env_amb_skip example_env = {}" "env_set_order example_env = id"
    by (simp_all add: example_env_def)
  note chk = ex_check[unfolded words_text_def ex_prose ex_index su]
  have "detect example_env example_content =
     ([(Mode_a, join [10] [u ''agac'', u ''ornek'', u ''sut''])] @
      [(Mode_l, [115, 252, 116, 10, 351, 117, 116, 10, 351, 252, 116])],
      Inr example_errors)"
    by (simp only: detect_def Let_def ex_prose ex_index su env chk ex_pass1 ex_layer2 ex_pass2
          prod.case sum.case fst_conv)
  then show ?thesis by (simp add: join_def u_def)
qed

section \<open>The calls of the spell checker\<close>

lemma main_calls:
  "fst (main env stdin) = [] \<or>
   (\<exists>path content. env_files env path = Text content \<and>
      fst (main env stdin) = fst (detect env content))"
  apply (auto simp: main_def split: option.splits sum.splits json.splits file_state.splits
        prod.splits if_splits)
  by (metis fst_conv)+

text \<open>
  The second call, exactly: its input is the concatenation of the variants of the
  candidates that pass 1 has kept, in the order it has kept them.
\<close>

lemma detect_calls_exact:
  "fst (detect env content) =
     (Mode_a, words_text content) #
     (case snd (hunspell_check_text (env_hunspell env) (words_text content)) of
        Inl e \<Rightarrow> []
      | Inr misspellings \<Rightarrow>
          (let all_variants = concat (map snd (snd (snd (pass1_of env content misspellings))))
           in if all_variants = [] then [] else [(Mode_l, join [10] all_variants)]))"
proof -
  let ?idx = "word_index (strip_non_prose content)"
  let ?text = "words_text content"
  have wt: "join [10] (sorted_unique ?idx) = ?text" by (simp add: words_text_def)
  obtain calls1 r1 where h: "hunspell_check_text (env_hunspell env) ?text = (calls1, r1)"
    by (cases "hunspell_check_text (env_hunspell env) ?text")
  with hunspell_check_text_calls[of "env_hunspell env" ?text]
  have calls1: "calls1 = [(Mode_a, ?text)]" by simp
  show ?thesis
  proof (cases r1)
    case (Inl e)
    with h wt calls1 have "fst (detect env content) = [(Mode_a, ?text)]"
      by (simp add: detect_def Let_def)
    with h Inl show ?thesis by simp
  next
    case (Inr misspellings)
    obtain errors1 seen1 l2c where p1:
      "pass1 (env_whitelist env) ?idx misspellings [] {} [] = (errors1, seen1, l2c)"
      by (cases "pass1 (env_whitelist env) ?idx misspellings [] {} []")
    obtain calls2 r2 where l2:
      "layer2 (env_hunspell env) (env_set_order env) ?idx l2c errors1 seen1 = (calls2, r2)"
      by (cases "layer2 (env_hunspell env) (env_set_order env) ?idx l2c errors1 seen1")
    from h wt Inr p1 l2 have "fst (detect env content) = calls1 @ calls2"
      by (cases r2) (auto simp: detect_def Let_def)
    moreover have "calls2 = (if concat (map snd l2c) = [] then []
        else [(Mode_l, join [10] (concat (map snd l2c)))])"
      using layer2_calls[of "env_hunspell env" "env_set_order env" ?idx l2c errors1 seen1] l2
      by simp
    moreover from p1 have "snd (snd (pass1_of env content misspellings)) = l2c"
      by (simp add: pass1_of_def)
    ultimately show ?thesis using calls1 h Inr by (simp add: Let_def)
  qed
qed

text \<open>
  What pass 1 keeps for Layer 2: an entry, once in the dict, stays, and an eligible word
  without a Layer 1 correction that has variants is entered unless its lower-case form
  is claimed.
\<close>

lemma update_keeps:
  "(k', v') \<in> set al \<Longrightarrow> k' \<noteq> k \<or> v' = v \<Longrightarrow> (k', v') \<in> set (AList.update k v al)"
  by (induction al) auto

lemma update_enters: "(k, v) \<in> set (AList.update k v al)"
  by (induction al) auto

lemma update_distinct: "distinct (map fst al) \<Longrightarrow> distinct (map fst (AList.update k v al))"
  by (rule distinct_update)

lemma keep_variants_keeps:
  "(w, generate_variants w) \<in> set l2c \<Longrightarrow> (w, generate_variants w) \<in> set (keep_variants word l2c)"
  by (auto simp: keep_variants_def Let_def intro: update_keeps)

lemma pass1_keeps:
  assumes "pass1 whitelist word_locations items errors seen l2c = (errors', seen', l2c')"
    and "(w, generate_variants w) \<in> set l2c"
  shows "(w, generate_variants w) \<in> set l2c'"
proof -
  have "case pass1 whitelist word_locations items errors seen l2c of
          (e, s, l) \<Rightarrow> (w, generate_variants w) \<in> set l"
    by (rule pass1_rule_gen[where S = "set items"])
       (simp_all add: assms(2) keep_variants_keeps)
  with assms(1) show ?thesis by simp
qed

lemma pass1_distinct_keys:
  assumes "pass1 whitelist word_locations items errors seen l2c = (errors', seen', l2c')"
    and "distinct (map fst l2c)"
  shows "distinct (map fst l2c')"
proof -
  have "case pass1 whitelist word_locations items errors seen l2c of
          (e, s, l) \<Rightarrow> distinct (map fst l)"
    by (rule pass1_rule_gen[where S = "set items"])
       (simp_all add: assms(2) keep_variants_def Let_def distinct_update)
  with assms(1) show ?thesis by simp
qed

lemma pass1_keeps_all:
  assumes "pass1 whitelist word_locations items errors seen l2c = (errors', seen', l2c')"
    and "(word, suggestions) \<in> set items"
    and "3 \<le> length word" "\<not> is_identifier word" "lower word \<notin> whitelist"
    and "layer1_suggestion word suggestions = None \<or> layer1_suggestion word suggestions = Some []"
    and "generate_variants word \<noteq> []"
    and "lower word \<notin> seen'"
  shows "(word, generate_variants word) \<in> set l2c'"
  using assms(1,2)
proof (induction items arbitrary: errors seen l2c)
  case Nil
  then show ?case by simp
next
  case (Cons item items)
  obtain w0 s0 where item: "item = (w0, s0)" by (cases item)
  have step: "\<exists>e1 s1 l1. pass1 whitelist word_locations (item # items) errors seen l2c
       = pass1 whitelist word_locations items e1 s1 l1 \<and>
       ((word, suggestions) = (w0, s0) \<longrightarrow> (word, generate_variants word) \<in> set l1)"
  proof (cases "(word, suggestions) = (w0, s0)")
    case True
    from pass1_seen_mono[OF Cons.prems(1)] assms(8) have ns: "lower word \<notin> seen" by auto
    from pass1_keep[OF ns assms(3-6), of word_locations items errors l2c] True item
    have "pass1 whitelist word_locations (item # items) errors seen l2c
       = pass1 whitelist word_locations items errors seen (keep_variants word l2c)" by simp
    moreover from assms(7) have "(word, generate_variants word) \<in> set (keep_variants word l2c)"
      by (simp add: keep_variants_def Let_def update_enters)
    ultimately show ?thesis by blast
  next
    case False
    show ?thesis
    proof (cases "lower w0 \<in> seen \<or> length w0 < 3 \<or> is_identifier w0 \<or> lower w0 \<in> whitelist")
      case True
      from pass1_skip[OF True] False show ?thesis unfolding item by blast
    next
      case el': False
      then have el: "lower w0 \<notin> seen" "3 \<le> length w0" "\<not> is_identifier w0"
        "lower w0 \<notin> whitelist" by auto
      show ?thesis
      proof (cases "layer1_suggestion w0 s0 = None \<or> layer1_suggestion w0 s0 = Some []")
        case True
        from pass1_keep[OF el True] False show ?thesis unfolding item by blast
      next
        case nk: False
        then obtain c0 where "layer1_suggestion w0 s0 = Some c0" "c0 \<noteq> []" by auto
        from pass1_claim[OF el this] False show ?thesis unfolding item by blast
      qed
    qed
  qed
  then obtain e1 s1 l1 where
    eq: "pass1 whitelist word_locations (item # items) errors seen l2c
       = pass1 whitelist word_locations items e1 s1 l1" and
    here: "(word, suggestions) = (w0, s0) \<longrightarrow> (word, generate_variants word) \<in> set l1"
    by blast
  from eq Cons.prems(1) have rest:
    "pass1 whitelist word_locations items e1 s1 l1 = (errors', seen', l2c')" by simp
  show ?case
  proof (cases "(word, suggestions) = (w0, s0)")
    case True
    with here pass1_keeps[OF rest] show ?thesis by simp
  next
    case False
    with Cons.prems(2) item have "(word, suggestions) \<in> set items" by auto
    from Cons.IH[OF rest this] show ?thesis .
  qed
qed

lemma pass1_of_candidates:
  "(\<forall>c \<in> set (snd (snd (pass1_of env content misspellings))).
      snd c = generate_variants (fst c) \<and> snd c \<noteq> [] \<and> fst c \<in> fst ` set misspellings) \<and>
   distinct (map fst (snd (snd (pass1_of env content misspellings)))) \<and>
   (\<forall>word suggestions.
      (word, suggestions) \<in> set misspellings \<longrightarrow> 3 \<le> length word \<longrightarrow>
      \<not> is_identifier word \<longrightarrow> lower word \<notin> env_whitelist env \<longrightarrow>
      (layer1_suggestion word suggestions = None \<or>
       layer1_suggestion word suggestions = Some []) \<longrightarrow>
      generate_variants word \<noteq> [] \<longrightarrow>
      lower word \<notin> fst (snd (pass1_of env content misspellings)) \<longrightarrow>
      (word, generate_variants word) \<in> set (snd (snd (pass1_of env content misspellings))))"
proof -
  let ?idx = "word_index (strip_non_prose content)"
  obtain errors1 seen1 l2c where p1:
    "pass1 (env_whitelist env) ?idx misspellings [] {} [] = (errors1, seen1, l2c)"
    by (cases "pass1 (env_whitelist env) ?idx misspellings [] {} []")
  then have po: "pass1_of env content misspellings = (errors1, seen1, l2c)"
    by (simp add: pass1_of_def)
  from pass1_spec[OF p1]
  have a: "\<forall>c \<in> set l2c. snd c = generate_variants (fst c) \<and> snd c \<noteq> [] \<and>
             fst c \<in> fst ` set misspellings"
    by (auto simp: layer2_candidate_def)
  from pass1_distinct_keys[OF p1] have b: "distinct (map fst l2c)" by simp
  have c: "(word, generate_variants word) \<in> set l2c"
    if "(word, suggestions) \<in> set misspellings" "3 \<le> length word" "\<not> is_identifier word"
      "lower word \<notin> env_whitelist env"
      "layer1_suggestion word suggestions = None \<or> layer1_suggestion word suggestions = Some []"
      "generate_variants word \<noteq> []" "lower word \<notin> seen1" for word suggestions
    using pass1_keeps_all[OF p1 that] .
  have c': "\<forall>word suggestions.
      (word, suggestions) \<in> set misspellings \<longrightarrow> 3 \<le> length word \<longrightarrow>
      \<not> is_identifier word \<longrightarrow> lower word \<notin> env_whitelist env \<longrightarrow>
      (layer1_suggestion word suggestions = None \<or>
       layer1_suggestion word suggestions = Some []) \<longrightarrow>
      generate_variants word \<noteq> [] \<longrightarrow>
      lower word \<notin> seen1 \<longrightarrow>
      (word, generate_variants word) \<in> set l2c"
    using c by blast
  show ?thesis unfolding po fst_conv snd_conv
    by (intro conjI a b c')
qed

text \<open>
  C1. In every run the spell checker is started at most twice. There is no call when the
  run ends before the file is read. Otherwise the first call, in mode \<open>-a\<close>, has as its
  input the sorted distinct words of the index, one per line. No call follows when the
  parsing of its answer raises. Else a second call, in mode \<open>-l\<close>, follows exactly when
  pass 1 has kept a Layer 2 candidate, and its input is all variants of all candidates
  that pass 1 has kept, one per line. The candidates are distinct words of the answer,
  each with all of \<open>generate_variants\<close> of it, and they include every eligible word of
  the answer that has variants and no Layer 1 correction, unless Layer 1 has claimed its
  lower-case form.
\<close>

theorem at_most_two_hunspell_calls:
  "length (fst (main env stdin)) \<le> 2 \<and>
   (fst (main env stdin) = [] \<or>
    (\<exists>path content.
       env_files env path = Text content \<and>
       fst (main env stdin) =
         (Mode_a, words_text content) #
         (case snd (hunspell_check_text (env_hunspell env) (words_text content)) of
            Inl e \<Rightarrow> []
          | Inr misspellings \<Rightarrow>
              (let all_variants = concat (map snd (snd (snd (pass1_of env content misspellings))))
               in if all_variants = [] then [] else [(Mode_l, join [10] all_variants)])))) \<and>
   (\<forall>content misspellings.
      (\<forall>c \<in> set (snd (snd (pass1_of env content misspellings))).
         snd c = generate_variants (fst c) \<and> snd c \<noteq> [] \<and> fst c \<in> fst ` set misspellings) \<and>
      distinct (map fst (snd (snd (pass1_of env content misspellings)))) \<and>
      (\<forall>word suggestions.
         (word, suggestions) \<in> set misspellings \<longrightarrow> 3 \<le> length word \<longrightarrow>
         \<not> is_identifier word \<longrightarrow> lower word \<notin> env_whitelist env \<longrightarrow>
         (layer1_suggestion word suggestions = None \<or>
          layer1_suggestion word suggestions = Some []) \<longrightarrow>
         generate_variants word \<noteq> [] \<longrightarrow>
         lower word \<notin> fst (snd (pass1_of env content misspellings)) \<longrightarrow>
         (word, generate_variants word) \<in> set (snd (snd (pass1_of env content misspellings)))))"
proof -
  have calls: "length (fst (main env stdin)) \<le> 2 \<and>
   (fst (main env stdin) = [] \<or>
    (\<exists>path content.
       env_files env path = Text content \<and>
       fst (main env stdin) =
         (Mode_a, words_text content) #
         (case snd (hunspell_check_text (env_hunspell env) (words_text content)) of
            Inl e \<Rightarrow> []
          | Inr misspellings \<Rightarrow>
              (let all_variants = concat (map snd (snd (snd (pass1_of env content misspellings))))
               in if all_variants = [] then [] else [(Mode_l, join [10] all_variants)]))))"
  proof (cases "fst (main env stdin) = []")
    case True
    then show ?thesis by simp
  next
    case False
    with main_calls[of env stdin] obtain path content where
      f: "env_files env path = Text content" and
      m: "fst (main env stdin) = fst (detect env content)" by blast
    note d = detect_calls_exact[of env content]
    from m d have "length (fst (main env stdin)) \<le> 2"
      by (simp add: Let_def split: sum.splits)
    moreover from f m d have "\<exists>path content.
       env_files env path = Text content \<and>
       fst (main env stdin) =
         (Mode_a, words_text content) #
         (case snd (hunspell_check_text (env_hunspell env) (words_text content)) of
            Inl e \<Rightarrow> []
          | Inr misspellings \<Rightarrow>
              (let all_variants = concat (map snd (snd (snd (pass1_of env content misspellings))))
               in if all_variants = [] then [] else [(Mode_l, join [10] all_variants)]))"
      by (intro exI[of _ path] exI[of _ content]) simp
    ultimately show ?thesis by blast
  qed
  from calls pass1_of_candidates[of env] show ?thesis by blast
qed

lemma ex_main_calls:
  "fst (main example_env example_stdin) =
     [(Mode_a, u ''agac'' @ [10] @ u ''ornek'' @ [10] @ u ''sut''),
      (Mode_l, [115, 252, 116, 10, 351, 117, 116, 10, 351, 252, 116])]"
proof -
  have f: "env_files example_env [47, 119, 47, 116, 114, 46, 109, 100] = Text example_content"
    "basename [47, 119, 47, 116, 114, 46, 109, 100] \<in> env_check_files example_env"
    by (simp_all add: example_env_def basename_def u_def)
  show ?thesis
    by (simp add: main_def example_stdin_def py_get_def f ex_detect example_errors_def u_def)
qed

lemma fst_main_detect:
  "fst (case detect env content of
          (calls, Inl e) \<Rightarrow> (calls, Uncaught e)
        | (calls, Inr errors) \<Rightarrow>
            if errors = [] then (calls, Exit 0 [] [])
            else (calls, Exit 2 [] (report path errors))) = fst (detect env content)"
  by (auto split: prod.splits sum.splits)

lemma ex2_prose: "strip_non_prose example_content_two = u ''sut kus''"
  unfolding strip_non_prose_def Let_def example_content_two_def by (simp add: ev_str ev_re ev_strip)

lemma ex2_index: "word_index (u ''sut kus'') = [(u ''sut'', [1]), (u ''kus'', [1])]"
  by (simp add: ev_str ev_re ev_words)

lemma ex2_text: "words_text example_content_two = u ''kus'' @ [10] @ u ''sut''"
  unfolding words_text_def ex2_prose ex2_index by (simp add: sorted_unique_def join_def u_def)

lemma ex2_check:
  "snd (hunspell_check_text (env_hunspell example_env_two) (words_text example_content_two)) =
     Inr [(u ''kus'', []), (u ''sut'', [])]"
  by (simp add: hunspell_check_text_def example_env_two_def example_env_def ev_str)

lemma ex2_pass1:
  "pass1_of example_env_two example_content_two [(u ''kus'', []), (u ''sut'', [])] =
     ([], {},
      [(u ''kus'', [[107, 117, 351], [107, 252, 115], [107, 252, 351]]),
       (u ''sut'', [[115, 252, 116], [351, 117, 116], [351, 252, 116]])])"
proof -
  have w: "env_whitelist example_env_two = {}"
    by (simp add: example_env_two_def example_env_def)
  show ?thesis unfolding pass1_of_def w ex2_prose ex2_index
    by (simp add: ev_layers ev_words ev_re ev_str Let_def)
qed

lemma ex2_main_calls:
  "fst (main example_env_two example_stdin) =
     [(Mode_a, u ''kus'' @ [10] @ u ''sut''),
      (Mode_l, [107, 117, 351, 10, 107, 252, 115, 10, 107, 252, 351, 10,
                115, 252, 116, 10, 351, 117, 116, 10, 351, 252, 116])]"
proof -
  have f: "env_files example_env_two [47, 119, 47, 116, 114, 46, 109, 100] = Text example_content_two"
    "basename [47, 119, 47, 116, 114, 46, 109, 100] \<in> env_check_files example_env_two"
    by (simp_all add: example_env_two_def example_env_def basename_def u_def)
  have m: "fst (main example_env_two example_stdin) = fst (detect example_env_two example_content_two)"
    by (simp add: main_def example_stdin_def py_get_def f fst_main_detect u_def)
  have "fst (main example_env_two example_stdin) =
      (Mode_a, words_text example_content_two) #
      (let all_variants = concat (map snd
             [(u ''kus'', [[107, 117, 351], [107, 252, 115], [107, 252, 351]]),
              (u ''sut'', [[115, 252, 116], [351, 117, 116], [351, 252, 116]])])
       in if all_variants = [] then [] else [(Mode_l, join [10] all_variants)])"
    by (simp only: m detect_calls_exact ex2_check sum.case ex2_pass1 snd_conv)
  then show ?thesis by (simp add: ex2_text join_def u_def)
qed

theorem at_most_two_hunspell_calls_witness:
  "fst (main example_env example_stdin) =
     [(Mode_a, u ''agac'' @ [10] @ u ''ornek'' @ [10] @ u ''sut''),
      (Mode_l, [115, 252, 116, 10, 351, 117, 116, 10, 351, 252, 116])] \<and>
   length (fst (main example_env example_stdin)) \<le> 2 \<and>
   env_files example_env_two (u ''/w/tr.md'') = Text example_content_two \<and>
   snd (hunspell_check_text (env_hunspell example_env_two) (words_text example_content_two)) =
     Inr [(u ''kus'', []), (u ''sut'', [])] \<and>
   snd (snd (pass1_of example_env_two example_content_two [(u ''kus'', []), (u ''sut'', [])])) =
     [(u ''kus'', [[107, 117, 351], [107, 252, 115], [107, 252, 351]]),
      (u ''sut'', [[115, 252, 116], [351, 117, 116], [351, 252, 116]])] \<and>
   fst (main example_env_two example_stdin) =
     [(Mode_a, u ''kus'' @ [10] @ u ''sut''),
      (Mode_l, [107, 117, 351, 10, 107, 252, 115, 10, 107, 252, 351, 10,
                115, 252, 116, 10, 351, 117, 116, 10, 351, 252, 116])] \<and>
   length (fst (main example_env_two example_stdin)) \<le> 2 \<and>
   (u ''sut'', []) \<in> set [(u ''kus'', []), (u ''sut'', [])] \<and>
   3 \<le> length (u ''sut'') \<and> \<not> is_identifier (u ''sut'') \<and>
   lower (u ''sut'') \<notin> env_whitelist example_env_two \<and>
   layer1_suggestion (u ''sut'') [] = None \<and>
   generate_variants (u ''sut'') = [[115, 252, 116], [351, 117, 116], [351, 252, 116]] \<and>
   lower (u ''sut'') \<notin>
     fst (snd (pass1_of example_env_two example_content_two [(u ''kus'', []), (u ''sut'', [])])) \<and>
   (u ''sut'', generate_variants (u ''sut'')) \<in>
     set (snd (snd (pass1_of example_env_two example_content_two
                      [(u ''kus'', []), (u ''sut'', [])])))"
proof -
  note t1 = at_most_two_hunspell_calls[of example_env example_stdin]
  note t2 = at_most_two_hunspell_calls[of example_env_two example_stdin]
  have f: "env_files example_env_two (u ''/w/tr.md'') = Text example_content_two"
    by (simp add: example_env_two_def example_env_def)
  have h: "(u ''sut'', []) \<in> set [(u ''kus'', []), (u ''sut'', [])]"
    "3 \<le> length (u ''sut'')" "\<not> is_identifier (u ''sut'')"
    "lower (u ''sut'') \<notin> env_whitelist example_env_two"
    "layer1_suggestion (u ''sut'') [] = None"
    by (simp_all add: ev_layers ev_words ev_re ev_str example_env_two_def example_env_def)
  have g: "generate_variants (u ''sut'') = [[115, 252, 116], [351, 117, 116], [351, 252, 116]]"
    by (simp add: ev_layers u_def)
  have s: "lower (u ''sut'') \<notin>
     fst (snd (pass1_of example_env_two example_content_two [(u ''kus'', []), (u ''sut'', [])]))"
    by (simp add: ex2_pass1)
  have gne: "generate_variants (u ''sut'') \<noteq> []"
    by (simp add: g)
  from t2 have "\<forall>word suggestions.
      (word, suggestions) \<in> set [(u ''kus'', []), (u ''sut'', [])] \<longrightarrow> 3 \<le> length word \<longrightarrow>
      \<not> is_identifier word \<longrightarrow> lower word \<notin> env_whitelist example_env_two \<longrightarrow>
      (layer1_suggestion word suggestions = None \<or>
       layer1_suggestion word suggestions = Some []) \<longrightarrow>
      generate_variants word \<noteq> [] \<longrightarrow>
      lower word \<notin> fst (snd (pass1_of example_env_two example_content_two
                               [(u ''kus'', []), (u ''sut'', [])])) \<longrightarrow>
      (word, generate_variants word) \<in>
        set (snd (snd (pass1_of example_env_two example_content_two
                         [(u ''kus'', []), (u ''sut'', [])])))"
    by blast
  with h gne s
  have "(u ''sut'', generate_variants (u ''sut'')) \<in>
     set (snd (snd (pass1_of example_env_two example_content_two
                      [(u ''kus'', []), (u ''sut'', [])])))"
    by blast
  with t1 t2 ex_main_calls ex2_main_calls ex2_check ex2_pass1 f h g s show ?thesis by simp
qed


section \<open>One finding for each word form\<close>

lemma sorted_map_const: "\<forall>x \<in> set xs. f x = k \<Longrightarrow> sorted (map f xs)"
  by (induction xs) auto

lemma detect_layers:
  assumes "detect env content = (calls, Inr errors)"
  shows "sorted (map f_layer errors) \<and> set (map f_layer errors) \<subseteq> {1, 2, 3}"
proof -
  from assms obtain misspellings new1 l2c new2 new3 where
    e: "errors = new1 @ new2 @ new3" and
    n1: "\<forall>e \<in> set new1. layer1_finding (env_whitelist env)
        (word_index (strip_non_prose content)) misspellings e" and
    n2: "\<forall>e \<in> set new2. layer2_finding (word_index (strip_non_prose content)) l2c e" and
    n3: "\<forall>e \<in> set new3. layer3_finding (env_whitelist env) (env_amb_lookup env)
        (env_amb_skip env) (word_index (strip_non_prose content)) misspellings e"
    by (rule detect_Inr) blast
  from n1 have l1: "\<forall>e \<in> set new1. f_layer e = 1" by (simp add: layer1_finding_def)
  from n2 have l2: "\<forall>e \<in> set new2. f_layer e = 2" by (simp add: layer2_finding_def)
  from n3 have l3: "\<forall>e \<in> set new3. f_layer e = 3" by (simp add: layer3_finding_def)
  from l1 l2 l3 have "sorted (map f_layer new1)" "sorted (map f_layer new2)"
    "sorted (map f_layer new3)" by (auto intro: sorted_map_const)
  with l1 l2 l3 have "sorted (map f_layer errors)"
    unfolding e by (auto simp: sorted_append)
  moreover from l1 l2 l3 have "set (map f_layer errors) \<subseteq> {1, 2, 3}"
    unfolding e by auto
  ultimately show ?thesis by simp
qed

text \<open>
  C4. In every scan that ends with a list of findings, no two findings have the same
  lower-case word, and the findings stand in the order of their layers, 1, 2, 3: a layer
  appends only words whose lower-case form no finding before it has. A word of the
  spell checker's answer that passes the filters and has a Layer 1 correction has its
  lower-case form claimed by a Layer 1 finding, and by no other finding.
\<close>

theorem one_finding_per_word_form:
  assumes "detect env content = (calls, Inr errors)"
  shows "distinct (map (\<lambda>e. lower (f_word e)) errors) \<and>
         sorted (map f_layer errors) \<and> set (map f_layer errors) \<subseteq> {1, 2, 3} \<and>
         (\<forall>misspellings word suggestions c.
            snd (hunspell_check_text (env_hunspell env) (words_text content)) = Inr misspellings \<longrightarrow>
            (word, suggestions) \<in> set misspellings \<longrightarrow> 3 \<le> length word \<longrightarrow>
            \<not> is_identifier word \<longrightarrow> lower word \<notin> env_whitelist env \<longrightarrow>
            layer1_suggestion word suggestions = Some c \<longrightarrow> c \<noteq> [] \<longrightarrow>
            (\<exists>e \<in> set errors. lower (f_word e) = lower word \<and> f_layer e = 1) \<and>
            (\<forall>e \<in> set errors. lower (f_word e) = lower word \<longrightarrow> f_layer e = 1))"
proof -
  from assms obtain mis new1 new2 new3 seen where
    h: "hunspell_check_text (env_hunspell env) (words_text content)
       = ([(Mode_a, words_text content)], Inr mis)" and
    e: "errors = new1 @ new2 @ new3" and
    ext: "extends [] {} (new1 @ new2 @ new3) errors seen" and
    n1: "\<forall>e \<in> set new1. layer1_finding (env_whitelist env)
        (word_index (strip_non_prose content)) mis e" and
    comp: "\<And>word suggestions c. (word, suggestions) \<in> set mis \<Longrightarrow> 3 \<le> length word \<Longrightarrow>
       \<not> is_identifier word \<Longrightarrow> lower word \<notin> env_whitelist env \<Longrightarrow>
       layer1_suggestion word suggestions = Some c \<Longrightarrow> c \<noteq> [] \<Longrightarrow>
       lower word \<in> (\<lambda>e. lower (f_word e)) ` set new1"
    by (rule detect_Inr) blast
  from ext e have dist: "distinct (map (\<lambda>e. lower (f_word e)) errors)"
    by (simp add: extends_def)
  then have inj: "inj_on (\<lambda>e. lower (f_word e)) (set errors)" by (simp add: distinct_map)
  have prec: "(\<exists>e \<in> set errors. lower (f_word e) = lower word \<and> f_layer e = 1) \<and>
            (\<forall>e \<in> set errors. lower (f_word e) = lower word \<longrightarrow> f_layer e = 1)"
    if "snd (hunspell_check_text (env_hunspell env) (words_text content)) = Inr misspellings"
      "(word, suggestions) \<in> set misspellings" "3 \<le> length word" "\<not> is_identifier word"
      "lower word \<notin> env_whitelist env" "layer1_suggestion word suggestions = Some c" "c \<noteq> []"
    for misspellings word suggestions c
  proof -
    from that(1) h have "misspellings = mis" by simp
    with that comp[of word suggestions c] obtain e1 where
      e1: "e1 \<in> set new1" "lower (f_word e1) = lower word" by auto
    with n1 have l1: "f_layer e1 = 1" by (simp add: layer1_finding_def)
    from e1 e have mem: "e1 \<in> set errors" by simp
    have "f_layer e' = 1" if "e' \<in> set errors" "lower (f_word e') = lower word" for e'
    proof -
      from that(2) e1(2) have "lower (f_word e') = lower (f_word e1)" by simp
      from inj_onD[OF inj this that(1) mem] have "e' = e1" .
      with l1 show ?thesis by simp
    qed
    with mem e1(2) l1 show ?thesis by blast
  qed
  from dist detect_layers[OF assms] prec show ?thesis by blast
qed

theorem one_finding_per_word_form_witness:
  "detect example_env example_content =
     ([(Mode_a, u ''agac'' @ [10] @ u ''ornek'' @ [10] @ u ''sut''),
       (Mode_l, [115, 252, 116, 10, 351, 117, 116, 10, 351, 252, 116])],
      Inr example_errors) \<and>
   distinct (map (\<lambda>e. lower (f_word e)) example_errors) \<and>
   sorted (map f_layer example_errors) \<and>
   map f_layer example_errors = [1, 2, 3] \<and>
   snd (hunspell_check_text (env_hunspell example_env) (words_text example_content))
     = Inr [(u ''ornek'', [[246] @ u ''rnek'']), (u ''sut'', [])] \<and>
   layer1_suggestion (u ''ornek'') [[246] @ u ''rnek''] = Some ([246] @ u ''rnek'') \<and>
   \<not> is_identifier (u ''ornek'') \<and>
   (\<exists>e \<in> set example_errors. lower (f_word e) = lower (u ''ornek'') \<and> f_layer e = 1)"
proof -
  note t = one_finding_per_word_form[OF ex_detect]
  have l1: "layer1_suggestion (u ''ornek'') [[246] @ u ''rnek''] = Some ([246] @ u ''rnek'')"
    by (simp add: ev_layers u_def)
  have id: "\<not> is_identifier (u ''ornek'')"
    by (simp add: ev_words ev_re u_def)
  have m: "map f_layer example_errors = [1, 2, 3]" by (simp add: example_errors_def)
  have mem: "(u ''ornek'', [[246] @ u ''rnek'']) \<in>
      set [(u ''ornek'', [[246] @ u ''rnek'']), (u ''sut'', [])]" by simp
  have len: "3 \<le> length (u ''ornek'')" by (simp add: u_def)
  have wl: "lower (u ''ornek'') \<notin> env_whitelist example_env" by (simp add: example_env_def)
  have ne: "[246] @ u ''rnek'' \<noteq> []" by simp
  have s: "snd (hunspell_check_text (env_hunspell example_env) (words_text example_content))
     = Inr [(u ''ornek'', [[246] @ u ''rnek'']), (u ''sut'', [])]" by (simp add: ex_check)
  from t have "\<exists>e \<in> set example_errors. lower (f_word e) = lower (u ''ornek'') \<and> f_layer e = 1"
    using s mem len id wl l1 ne by blast
  with t ex_detect l1 id m s show ?thesis by simp
qed

section \<open>The layers\<close>

text \<open>
  C5. \<open>layer1_suggestion\<close> returns the first suggestion, in the order of the spell
  checker, whose folded form equals the folded form of the word up to case, whose
  lower-case form differs from that of the word, and which has strictly more diacritic
  characters than the word; it returns nothing when no suggestion is such. In a scan,
  every Layer 1 finding has confidence high, and its correction is what
  \<open>layer1_suggestion\<close> returns for its word and the suggestions the spell checker gave
  for that word.
\<close>

theorem layer1_first_qualifying_suggestion:
  "layer1_suggestion word suggestions =
     find (\<lambda>s. lower (ascii_fold s) = lower (ascii_fold word) \<and> lower s \<noteq> lower word \<and>
                count_diacritics word < count_diacritics s) suggestions \<and>
   (\<forall>calls errors. detect env content = (calls, Inr errors) \<longrightarrow>
      (\<forall>e \<in> set errors. f_layer e = 1 \<longrightarrow>
         f_confidence e = High \<and>
         (\<exists>misspellings sugg.
            snd (hunspell_check_text (env_hunspell env) (words_text content)) = Inr misspellings \<and>
            (f_word e, sugg) \<in> set misspellings \<and>
            layer1_suggestion (f_word e) sugg = Some (f_correction e))))"
proof -
  have "f_confidence e = High \<and>
         (\<exists>misspellings sugg.
            snd (hunspell_check_text (env_hunspell env) (words_text content)) = Inr misspellings \<and>
            (f_word e, sugg) \<in> set misspellings \<and>
            layer1_suggestion (f_word e) sugg = Some (f_correction e))"
    if d: "detect env content = (calls, Inr errors)" and e: "e \<in> set errors" "f_layer e = 1"
    for calls errors e
  proof -
    from d obtain mis new1 l2c new2 new3 where
      h: "hunspell_check_text (env_hunspell env) (words_text content)
         = ([(Mode_a, words_text content)], Inr mis)" and
      es: "errors = new1 @ new2 @ new3" and
      n1: "\<forall>e \<in> set new1. layer1_finding (env_whitelist env)
          (word_index (strip_non_prose content)) mis e" and
      n2: "\<forall>e \<in> set new2. layer2_finding (word_index (strip_non_prose content)) l2c e" and
      n3: "\<forall>e \<in> set new3. layer3_finding (env_whitelist env) (env_amb_lookup env)
          (env_amb_skip env) (word_index (strip_non_prose content)) mis e"
      by (rule detect_Inr) blast
    from n2 n3 e(2) have "e \<notin> set new2" "e \<notin> set new3"
      by (auto simp: layer2_finding_def layer3_finding_def)
    with e(1) es have "e \<in> set new1" by simp
    with n1 have "layer1_finding (env_whitelist env) (word_index (strip_non_prose content)) mis e"
      by simp
    with h show ?thesis by (auto simp: layer1_finding_def)
  qed
  with layer1_suggestion_find[of word suggestions] show ?thesis by blast
qed

theorem layer1_first_qualifying_suggestion_witness:
  "layer1_suggestion (u ''ornek'') [u ''ornez'', [246] @ u ''rnek'', [214] @ u ''rnek'']
     = Some ([246] @ u ''rnek'') \<and>
   layer1_suggestion (u ''ornek'') [u ''ornez'', u ''Ornek''] = None \<and>
   detect example_env example_content =
     ([(Mode_a, u ''agac'' @ [10] @ u ''ornek'' @ [10] @ u ''sut''),
       (Mode_l, [115, 252, 116, 10, 351, 117, 116, 10, 351, 252, 116])],
      Inr example_errors) \<and>
   hd example_errors \<in> set example_errors \<and>
   f_layer (hd example_errors) = 1 \<and> f_confidence (hd example_errors) = High"
proof -
  have a: "find (\<lambda>s. lower (ascii_fold s) = lower (ascii_fold (u ''ornek'')) \<and>
                     lower s \<noteq> lower (u ''ornek'') \<and>
                     count_diacritics (u ''ornek'') < count_diacritics s)
             [u ''ornez'', [246] @ u ''rnek'', [214] @ u ''rnek''] = Some ([246] @ u ''rnek'')"
    by (simp add: ev_layers u_def)
  have b: "find (\<lambda>s. lower (ascii_fold s) = lower (ascii_fold (u ''ornek'')) \<and>
                     lower s \<noteq> lower (u ''ornek'') \<and>
                     count_diacritics (u ''ornek'') < count_diacritics s)
             [u ''ornez'', u ''Ornek''] = None"
    by (simp add: ev_layers u_def)
  have c: "hd example_errors \<in> set example_errors" "f_layer (hd example_errors) = 1"
    by (simp_all add: example_errors_def)
  from layer1_first_qualifying_suggestion[of "u ''ornek''"
        "[u ''ornez'', [246] @ u ''rnek'', [214] @ u ''rnek'']" example_env example_content]
    layer1_first_qualifying_suggestion[of "u ''ornek''" "[u ''ornez'', u ''Ornek'']"
        example_env example_content]
    a b c ex_detect
  show ?thesis by simp
qed

text \<open>
  C7. A word with none of the letters \<open>c g i o s u\<close>, in either case, is claimed by no
  layer: \<open>layer1_suggestion\<close> returns nothing for it whatever the suggestions,
  \<open>generate_variants\<close> returns no variant, and no scan has a finding for it.
\<close>

theorem no_finding_without_substitutable_letter:
  assumes "\<forall>c \<in> set word. c \<notin> set (u ''cgiosuCGIOSU'')"
  shows "layer1_suggestion word suggestions = None \<and>
         generate_variants word = [] \<and>
         (\<forall>calls errors. detect env content = (calls, Inr errors) \<longrightarrow>
            word \<notin> f_word ` set errors)"
proof -
  have b12: "base12 c = (c \<in> set (u ''cgiosuCGIOSU''))" for c
    by (auto simp: base12_def u_def)
  from assms have ns: "\<not> any_swap word"
    by (simp add: any_swap_base12 filter_empty_conv b12)
  have l1: "layer1_suggestion word suggestions = None" for suggestions
    using layer1_needs_swap[of word suggestions] ns
    by (cases "layer1_suggestion word suggestions") auto
  from ns have gv: "generate_variants word = []" by (simp add: generate_variants_def)
  have "word \<notin> f_word ` set errors" if d: "detect env content = (calls, Inr errors)"
    for calls errors
  proof
    assume "word \<in> f_word ` set errors"
    then obtain e where e: "e \<in> set errors" "f_word e = word" by auto
    from d obtain mis new1 l2c new2 new3 where
      es: "errors = new1 @ new2 @ new3" and
      n1: "\<forall>e \<in> set new1. layer1_finding (env_whitelist env)
          (word_index (strip_non_prose content)) mis e" and
      c2: "\<forall>c \<in> set l2c. layer2_candidate mis c" and
      n2: "\<forall>e \<in> set new2. layer2_finding (word_index (strip_non_prose content)) l2c e" and
      n3: "\<forall>e \<in> set new3. layer3_finding (env_whitelist env) (env_amb_lookup env)
          (env_amb_skip env) (word_index (strip_non_prose content)) mis e"
      by (rule detect_Inr) blast
    from e(1) es consider "e \<in> set new1" | "e \<in> set new2" | "e \<in> set new3" by auto
    then show False
    proof cases
      case 1
      with n1 e(2) l1 show False by (auto simp: layer1_finding_def)
    next
      case 2
      with n2 e(2) have "word \<in> fst ` set l2c" by (auto simp: layer2_finding_def)
      with c2 gv show False by (auto simp: layer2_candidate_def)
    next
      case 3
      with n3 e(2) ns show False by (auto simp: layer3_finding_def)
    qed
  qed
  with l1 gv show ?thesis by blast
qed

theorem no_finding_without_substitutable_letter_witness:
  "list_all (\<lambda>c. c \<notin> set (u ''cgiosuCGIOSU'')) (u ''kalem'') \<and>
   layer1_suggestion (u ''kalem'') [u ''kelam'', u ''kalemi''] = None \<and>
   generate_variants (u ''kalem'') = [] \<and>
   detect example_env example_content =
     ([(Mode_a, u ''agac'' @ [10] @ u ''ornek'' @ [10] @ u ''sut''),
       (Mode_l, [115, 252, 116, 10, 351, 117, 116, 10, 351, 252, 116])],
      Inr example_errors) \<and>
   u ''kalem'' \<notin> f_word ` set example_errors"
proof -
  have h: "\<forall>c \<in> set (u ''kalem''). c \<notin> set (u ''cgiosuCGIOSU'')" by (simp add: u_def)
  from no_finding_without_substitutable_letter[OF h, of "[u ''kelam'', u ''kalemi'']"
         example_env example_content] ex_detect h
  show ?thesis by (simp add: list_all_iff)
qed

lemma filter_layer3:
  assumes "\<forall>e \<in> set new1. f_layer e = 1" "\<forall>e \<in> set new2. f_layer e = 2"
    "\<forall>e \<in> set new3. f_layer e = 3"
  shows "filter (\<lambda>e. f_layer e = 3) (new1 @ new2 @ new3) = new3"
proof -
  from assms(1) have "filter (\<lambda>e. f_layer e = 3) new1 = []" by (auto simp: filter_empty_conv)
  moreover from assms(2) have "filter (\<lambda>e. f_layer e = 3) new2 = []"
    by (auto simp: filter_empty_conv)
  moreover from assms(3) have "filter (\<lambda>e. f_layer e = 3) new3 = new3"
    by (auto simp: filter_id_conv)
  ultimately show ?thesis by simp
qed

text \<open>
  C8. In a scan, the Layer 3 findings stand in the strictly increasing order of their
  words (the order of code points in which the loop visits the words of the index) and
  are at most 15. Each has confidence medium, a word of the index that the spell checker
  did not flag, and a lower-case form that no finding of Layer 1 or 2 has. A word that
  meets all conditions of Layer 3 is left without a claim on its lower-case form only
  when the layer has made its 15 findings.
\<close>

theorem layer3_sorted_capped:
  assumes "detect env content = (calls, Inr errors)"
    and "snd (hunspell_check_text (env_hunspell env) (words_text content)) = Inr misspellings"
  shows "sorted_wrt (<) (map f_word (filter (\<lambda>e. f_layer e = 3) errors)) \<and>
         length (filter (\<lambda>e. f_layer e = 3) errors) \<le> 15 \<and>
         (\<forall>e \<in> set errors. f_layer e = 3 \<longrightarrow>
            f_confidence e = Medium \<and>
            f_word e \<in> fst ` set (word_index (strip_non_prose content)) \<and>
            f_word e \<notin> fst ` set misspellings \<and>
            (\<forall>e' \<in> set errors. f_layer e' \<noteq> 3 \<longrightarrow> lower (f_word e') \<noteq> lower (f_word e))) \<and>
         (\<forall>word c.
            word \<in> fst ` set (word_index (strip_non_prose content)) \<longrightarrow>
            \<not> is_identifier word \<longrightarrow> 3 \<le> length word \<longrightarrow> any_swap word \<longrightarrow>
            word \<notin> fst ` set misspellings \<longrightarrow>
            layer3_ambiguity word (env_amb_lookup env) (env_amb_skip env) (env_whitelist env)
              = Some c \<longrightarrow>
            c \<noteq> [] \<longrightarrow> lower c \<noteq> lower word \<longrightarrow>
            lower word \<in> (\<lambda>e. lower (f_word e)) ` set errors \<or>
            length (filter (\<lambda>e. f_layer e = 3) errors) = 15)"
proof -
  let ?idx = "word_index (strip_non_prose content)"
  from assms(1) obtain mis new1 l2c new2 new3 seen where
    h: "hunspell_check_text (env_hunspell env) (words_text content)
       = ([(Mode_a, words_text content)], Inr mis)" and
    es: "errors = new1 @ new2 @ new3" and
    ext: "extends [] {} (new1 @ new2 @ new3) errors seen" and
    n1: "\<forall>e \<in> set new1. layer1_finding (env_whitelist env) ?idx mis e" and
    n2: "\<forall>e \<in> set new2. layer2_finding ?idx l2c e" and
    n3: "\<forall>e \<in> set new3. layer3_finding (env_whitelist env) (env_amb_lookup env)
        (env_amb_skip env) ?idx mis e" and
    len: "length new3 \<le> LAYER3_BRAKE" and
    srt: "sorted_wrt (<) (map f_word new3)" and
    idx: "f_word ` set new3 \<subseteq> fst ` set ?idx" and
    comp: "\<And>word c. word \<in> fst ` set ?idx \<Longrightarrow>
       \<not> is_identifier word \<Longrightarrow> 3 \<le> length word \<Longrightarrow> any_swap word \<Longrightarrow>
       word \<notin> fst ` set mis \<Longrightarrow>
       layer3_ambiguity word (env_amb_lookup env) (env_amb_skip env) (env_whitelist env) = Some c \<Longrightarrow>
       c \<noteq> [] \<Longrightarrow> lower c \<noteq> lower word \<Longrightarrow>
       lower word \<in> (\<lambda>e. lower (f_word e)) ` set errors \<or> length new3 = LAYER3_BRAKE"
    by (rule detect_Inr) blast
  from h assms(2) have mis: "mis = misspellings" by simp
  from n1 have l1: "\<forall>e \<in> set new1. f_layer e = 1" by (simp add: layer1_finding_def)
  from n2 have l2: "\<forall>e \<in> set new2. f_layer e = 2" by (simp add: layer2_finding_def)
  from n3 have l3: "\<forall>e \<in> set new3. f_layer e = 3" by (simp add: layer3_finding_def)
  have f3: "filter (\<lambda>e. f_layer e = 3) errors = new3"
    unfolding es by (rule filter_layer3[OF l1 l2 l3])
  from ext es have dist: "distinct (map (\<lambda>e. lower (f_word e)) errors)"
    by (simp add: extends_def)
  then have inj: "inj_on (\<lambda>e. lower (f_word e)) (set errors)" by (simp add: distinct_map)
  have each: "f_confidence e = Medium \<and> f_word e \<in> fst ` set ?idx \<and>
      f_word e \<notin> fst ` set misspellings \<and>
      (\<forall>e' \<in> set errors. f_layer e' \<noteq> 3 \<longrightarrow> lower (f_word e') \<noteq> lower (f_word e))"
    if e: "e \<in> set errors" "f_layer e = 3" for e
  proof -
    from e have "e \<in> set (filter (\<lambda>e. f_layer e = 3) errors)" by simp
    with f3 have m: "e \<in> set new3" by simp
    with n3 have f: "layer3_finding (env_whitelist env) (env_amb_lookup env) (env_amb_skip env)
        ?idx mis e" by simp
    have "lower (f_word e') \<noteq> lower (f_word e)" if e': "e' \<in> set errors" "f_layer e' \<noteq> 3"
      for e'
    proof
      assume "lower (f_word e') = lower (f_word e)"
      from inj_onD[OF inj this e'(1) e(1)] e(2) e'(2) show False by simp
    qed
    with f m idx mis show ?thesis by (auto simp: layer3_finding_def)
  qed
  from srt len f3 each comp mis show ?thesis
    unfolding LAYER3_BRAKE_def by (simp only: f3) blast
qed

theorem layer3_sorted_capped_witness:
  "detect example_env example_content =
     ([(Mode_a, u ''agac'' @ [10] @ u ''ornek'' @ [10] @ u ''sut''),
       (Mode_l, [115, 252, 116, 10, 351, 117, 116, 10, 351, 252, 116])],
      Inr example_errors) \<and>
   snd (hunspell_check_text (env_hunspell example_env) (words_text example_content))
     = Inr [(u ''ornek'', [[246] @ u ''rnek'']), (u ''sut'', [])] \<and>
   filter (\<lambda>e. f_layer e = 3) example_errors = [last example_errors] \<and>
   last example_errors \<in> set example_errors \<and>
   f_word (last example_errors) = u ''agac'' \<and>
   f_confidence (last example_errors) = Medium \<and>
   u ''agac'' \<notin> fst ` set [(u ''ornek'', [[246] @ u ''rnek'']), (u ''sut'', [])] \<and>
   length (filter (\<lambda>e. f_layer e = 3) example_errors) \<le> 15"
proof -
  have s: "snd (hunspell_check_text (env_hunspell example_env) (words_text example_content))
     = Inr [(u ''ornek'', [[246] @ u ''rnek'']), (u ''sut'', [])]" by (simp add: ex_check)
  have f: "filter (\<lambda>e. f_layer e = 3) example_errors = [last example_errors]"
    "last example_errors \<in> set example_errors" "f_word (last example_errors) = u ''agac''"
    "f_layer (last example_errors) = 3"
    by (simp_all add: example_errors_def)
  from layer3_sorted_capped[OF ex_detect s] ex_detect s f show ?thesis by (simp add: u_def)
qed

text \<open>
  C10. Every key of the word index has at least two characters, all of them ASCII
  letters or Turkish letters with a diacritic, so none is an underscore, a hyphen or a
  digit. Neither the snake_case nor the kebab-case alternative of \<open>RE_IDENTIFIER\<close>
  matches a key: a key is identifier-shaped exactly when the camelCase or the ALL-CAPS
  alternative matches it.
\<close>

theorem word_index_keys:
  assumes "(word, locs) \<in> set (word_index prose)"
  shows "2 \<le> length word \<and> (\<forall>c \<in> set word. is_letter c) \<and>
         95 \<notin> set word \<and> 45 \<notin> set word \<and> (\<forall>c \<in> set word. \<not> (48 \<le> c \<and> c \<le> 57)) \<and>
         \<not> fullmatch RE_SNAKE word \<and> \<not> fullmatch RE_KEBAB word \<and>
         (is_identifier word \<longleftrightarrow> fullmatch RE_CAMEL word \<or> fullmatch RE_CAPS word)"
proof -
  from assms have "word \<in> fst ` set (word_index prose)" by force
  from word_index_key[OF this] have len: "2 \<le> length word"
    and ltr: "\<forall>c \<in> set word. is_letter c" by auto
  from ltr is_letter_no_sign have no: "95 \<notin> set word" "45 \<notin> set word"
    "\<forall>c \<in> set word. \<not> (48 \<le> c \<and> c \<le> 57)" by blast+
  from no fullmatch_RE_SNAKE[of word] fullmatch_RE_KEBAB[of word]
  have nm: "\<not> fullmatch RE_SNAKE word" "\<not> fullmatch RE_KEBAB word" by blast+
  with is_identifier_alts[of word]
  have "is_identifier word \<longleftrightarrow> fullmatch RE_CAMEL word \<or> fullmatch RE_CAPS word" by simp
  with len ltr no nm show ?thesis by simp
qed

theorem word_index_keys_witness:
  "word_index (u ''a okMe x_y AB'') = [(u ''okMe'', [1]), (u ''AB'', [1])] \<and>
   2 \<le> length (u ''okMe'') \<and> list_all is_letter (u ''okMe'') \<and>
   \<not> fullmatch RE_SNAKE (u ''okMe'') \<and> \<not> fullmatch RE_KEBAB (u ''okMe'') \<and>
   fullmatch RE_CAMEL (u ''okMe'') \<and> is_identifier (u ''okMe'') \<and>
   fullmatch RE_CAPS (u ''AB'') \<and> is_identifier (u ''AB'')"
proof -
  have i: "word_index (u ''a okMe x_y AB'') = [(u ''okMe'', [1]), (u ''AB'', [1])]"
    by (simp add: ev_str ev_re ev_words)
  then have m: "(u ''okMe'', [1]) \<in> set (word_index (u ''a okMe x_y AB''))"
    "(u ''AB'', [1]) \<in> set (word_index (u ''a okMe x_y AB''))" by simp_all
  have c: "fullmatch RE_CAMEL (u ''okMe'')" "fullmatch RE_CAPS (u ''AB'')"
    by (simp_all add: ev_str ev_re ev_words)
  from word_index_keys[OF m(1)] word_index_keys[OF m(2)] i c show ?thesis
    by (simp add: list_all_iff)
qed

section \<open>Where the program departs from its documentation\<close>

lemma ex_layer2_rev:
  "layer2 (env_hunspell example_env) rev [(u ''ornek'', [1]), (u ''sut'', [1]), (u ''agac'', [1])]
     [(u ''sut'', [[115, 252, 116], [351, 117, 116], [351, 252, 116]])]
     [\<lparr>f_word = u ''ornek'', f_correction = [246] @ u ''rnek'', f_lines = [1],
        f_confidence = High, f_layer = 1\<rparr>] {u ''ornek''} =
   ([(Mode_l, [115, 252, 116, 10, 351, 117, 116, 10, 351, 252, 116])],
    Inr ([\<lparr>f_word = u ''ornek'', f_correction = [246] @ u ''rnek'', f_lines = [1],
            f_confidence = High, f_layer = 1\<rparr>,
          \<lparr>f_word = u ''sut'', f_correction = [351, 117, 116], f_lines = [1],
            f_confidence = High, f_layer = 2\<rparr>], {u ''sut'', u ''ornek''}))"
  by (simp add: layer2_def hunspell_batch_valid_def example_env_def ev_layers ev_str Let_def)

lemma ex_pass2_rev:
  "pass2 {} [u ''agac'' \<mapsto> [97, 287, 97, 231]] {}
     [(u ''ornek'', [1]), (u ''sut'', [1]), (u ''agac'', [1])]
     [(u ''ornek'', [[246] @ u ''rnek'']), (u ''sut'', [])]
     [u ''agac'', u ''ornek'', u ''sut'']
     [\<lparr>f_word = u ''ornek'', f_correction = [246] @ u ''rnek'', f_lines = [1],
            f_confidence = High, f_layer = 1\<rparr>,
          \<lparr>f_word = u ''sut'', f_correction = [351, 117, 116], f_lines = [1],
            f_confidence = High, f_layer = 2\<rparr>] {u ''sut'', u ''ornek''} 0 =
   (example_errors_rev, {u ''agac'', u ''sut'', u ''ornek''}, 1)"
  by (simp add: example_errors_rev_def ev_layers ev_words ev_re ev_str Let_def)

lemma ex_detect_rev:
  "detect example_env_rev example_content =
     ([(Mode_a, u ''agac'' @ [10] @ u ''ornek'' @ [10] @ u ''sut''),
       (Mode_l, [115, 252, 116, 10, 351, 117, 116, 10, 351, 252, 116])],
      Inr example_errors_rev)"
proof -
  have su: "sorted_unique [(u ''ornek'', [1]), (u ''sut'', [1]), (u ''agac'', [1])]
            = [u ''agac'', u ''ornek'', u ''sut'']"
    by (simp add: sorted_unique_def u_def)
  have env: "env_whitelist example_env_rev = {}"
    "env_amb_lookup example_env_rev = [u ''agac'' \<mapsto> [97, 287, 97, 231]]"
    "env_amb_skip example_env_rev = {}" "env_set_order example_env_rev = rev"
    "env_hunspell example_env_rev = env_hunspell example_env"
    by (simp_all add: example_env_rev_def example_env_def)
  note chk = ex_check[unfolded words_text_def ex_prose ex_index su]
  have "detect example_env_rev example_content =
     ([(Mode_a, join [10] [u ''agac'', u ''ornek'', u ''sut''])] @
      [(Mode_l, [115, 252, 116, 10, 351, 117, 116, 10, 351, 252, 116])],
      Inr example_errors_rev)"
    by (simp only: detect_def Let_def ex_prose ex_index su env chk ex_pass1 ex_layer2_rev
          ex_pass2_rev prod.case sum.case fst_conv)
  then show ?thesis by (simp add: join_def u_def)
qed

text \<open>
  C3. Two runs on the same file, with the same dictionaries and the same answers of the
  spell checker, that differ only in the order in which the process iterates over the
  set of valid variants: the first corrects \<open>sut\<close> to the variant with u-diaeresis, the
  second to the variant with s-cedilla.
\<close>

theorem findings_depend_on_set_order:
  "snd (detect example_env example_content) = Inr example_errors \<and>
   snd (detect example_env_rev example_content) = Inr example_errors_rev \<and>
   env_hunspell example_env_rev = env_hunspell example_env \<and>
   env_files example_env_rev = env_files example_env \<and>
   env_whitelist example_env_rev = env_whitelist example_env \<and>
   env_amb_lookup example_env_rev = env_amb_lookup example_env \<and>
   env_amb_skip example_env_rev = env_amb_skip example_env \<and>
   set example_errors \<noteq> set example_errors_rev"
proof -
  have "\<lparr>f_word = u ''sut'', f_correction = [115, 252, 116], f_lines = [1],
          f_confidence = High, f_layer = 2\<rparr> \<in> set example_errors"
    by (simp add: example_errors_def)
  moreover have "\<lparr>f_word = u ''sut'', f_correction = [115, 252, 116], f_lines = [1],
          f_confidence = High, f_layer = 2\<rparr> \<notin> set example_errors_rev"
    by (simp add: example_errors_rev_def u_def)
  ultimately have ne: "set example_errors \<noteq> set example_errors_rev" by blast
  have same: "env_hunspell example_env_rev = env_hunspell example_env"
    "env_files example_env_rev = env_files example_env"
    "env_whitelist example_env_rev = env_whitelist example_env"
    "env_amb_lookup example_env_rev = env_amb_lookup example_env"
    "env_amb_skip example_env_rev = env_amb_skip example_env"
    by (simp_all add: example_env_rev_def)
  from ne same show ?thesis by (simp add: ex_detect ex_detect_rev)
qed

text \<open>
  What the callback \<open>_blank\<close> achieves: a substitution that uses it keeps the number of
  newline characters, whatever the pattern.
\<close>

lemma run_length_bound: "p \<le> length s \<Longrightarrow> p + run_length P s p \<le> length s"
  using length_takeWhile_le[of P "drop p s"] by (simp add: run_length_def)

lemma step_bounds:
  "st' \<in> set (step r s st) \<Longrightarrow> fst st \<le> length s \<Longrightarrow>
     fst st \<le> fst st' \<and> fst st' \<le> length s"
proof (induction r arbitrary: st st')
  case (Seq a b)
  from Seq.prems(1) obtain mid where mid: "mid \<in> set (step a s st)"
    and st': "st' \<in> set (step b s mid)" by auto
  from Seq.IH(1)[OF mid Seq.prems(2)] have m: "fst st \<le> fst mid" "fst mid \<le> length s" by auto
  from Seq.IH(2)[OF st' m(2)] m(1) show ?case by auto
next
  case (Many P)
  from Many.prems(1) obtain k where "k \<le> run_length P s (fst st)" "fst st' = fst st + k"
    by auto
  with run_length_bound[OF Many.prems(2), of P] show ?case by simp
next
  case (Few P)
  from Few.prems(1) obtain k where "k \<le> run_length P s (fst st)" "fst st' = fst st + k"
    by auto
  with run_length_bound[OF Few.prems(2), of P] show ?case by simp
next
  case (Grp a)
  from Grp.prems(1) obtain e g where "(e, g) \<in> set (step a s st)" "fst st' = e" by auto
  with Grp.IH[of "(e, g)" st] Grp.prems(2) show ?case by auto
qed (auto split: if_splits)

lemma newlines_append: "newlines (xs @ ys) = newlines xs + newlines ys"
  by (simp add: newlines_def)

lemma drop_slice: "i \<le> e \<Longrightarrow> e \<le> length s \<Longrightarrow> drop i s = slice s i e @ drop e s"
proof -
  assume a: "i \<le> e" "e \<le> length s"
  have "drop i s = take (e - i) (drop i s) @ drop (e - i) (drop i s)"
    by (rule append_take_drop_id[symmetric])
  moreover from a have "drop (e - i) (drop i s) = drop e s" by simp
  ultimately show ?thesis by (simp add: slice_def)
qed

lemma expand_Blank: "newlines (expand Blank s i st) = newlines (slice s i (fst st))"
  by (simp add: expand_def newlines_def)

lemma sub_loop_done:
  "i \<le> length s \<Longrightarrow> count \<noteq> 0 \<and> n \<ge> count \<Longrightarrow> sub_loop r rp s count n i = drop i s"
  by (subst sub_loop.simps) (auto simp del: sub_loop.simps)

lemma sub_loop_nomatch:
  "i \<le> length s \<Longrightarrow> \<not> (count \<noteq> 0 \<and> n \<ge> count) \<Longrightarrow> step r s (i, None) = [] \<Longrightarrow>
     sub_loop r rp s count n i =
       (if i < length s then s ! i # sub_loop r rp s count n (i + 1) else [])"
  by (subst sub_loop.simps) (auto simp del: sub_loop.simps)

lemma sub_loop_match:
  "i \<le> length s \<Longrightarrow> \<not> (count \<noteq> 0 \<and> n \<ge> count) \<Longrightarrow> step r s (i, None) = st # sts \<Longrightarrow>
     sub_loop r rp s count n i =
       (if fst st \<le> i
        then expand rp s i st @
             (if i < length s then s ! i # sub_loop r rp s count (n + 1) (i + 1) else [])
        else expand rp s i st @ sub_loop r rp s count (n + 1) (fst st))"
  by (subst sub_loop.simps) (auto simp del: sub_loop.simps)

lemma newlines_drop_Suc:
  "i < length s \<Longrightarrow> newlines (drop i s) = newlines [s ! i] + newlines (drop (i + 1) s)"
  by (simp add: newlines_def Cons_nth_drop_Suc[symmetric])

lemma sub_loop_Blank:
  "i \<le> length s \<Longrightarrow> newlines (sub_loop r Blank s count n i) = newlines (drop i s)"
proof (induction r Blank s count n i rule: sub_loop.induct)
  case (1 r s count n i)
  note le = "1.prems"
  then have nle: "\<not> length s < i" by simp
  show ?case
  proof (cases "count \<noteq> 0 \<and> n \<ge> count")
    case True
    show ?thesis unfolding sub_loop_done[OF le True] ..
  next
    case nc: False
    show ?thesis
    proof (cases "step r s (i, None)")
      case Nil
      show ?thesis
      proof (cases "i < length s")
        case True
        from "1.hyps"(1)[OF nle nc Nil True] True
        have "newlines (sub_loop r Blank s count n (i + 1)) = newlines (drop (i + 1) s)" by simp
        with True show ?thesis
          unfolding sub_loop_nomatch[OF le nc Nil] newlines_drop_Suc[OF True]
          by (simp del: sub_loop.simps add: newlines_def)
      next
        case False
        with le show ?thesis unfolding sub_loop_nomatch[OF le nc Nil]
          by (simp del: sub_loop.simps)
      qed
    next
      case (Cons st sts)
      then have "st \<in> set (step r s (i, None))" by simp
      from step_bounds[OF this] le have b: "i \<le> fst st" "fst st \<le> length s" by auto
      show ?thesis
      proof (cases "fst st \<le> i")
        case True
        with b have e: "fst st = i" by simp
        then have z: "newlines (expand Blank s i st) = 0"
          unfolding expand_Blank by (simp add: slice_def newlines_def)
        show ?thesis
        proof (cases "i < length s")
          case lt: True
          from "1.hyps"(2)[OF nle nc Cons True lt] lt
          have "newlines (sub_loop r Blank s count (n + 1) (i + 1)) = newlines (drop (i + 1) s)"
            by simp
          with lt True z show ?thesis
            unfolding sub_loop_match[OF le nc Cons] newlines_drop_Suc[OF lt]
            by (simp del: sub_loop.simps add: newlines_append) (simp add: newlines_def)
        next
          case False
          with le True z show ?thesis unfolding sub_loop_match[OF le nc Cons]
            by (simp del: sub_loop.simps add: newlines_append) (simp add: newlines_def)
        qed
      next
        case False
        from "1.hyps"(3)[OF nle nc Cons False b(2)]
        have "newlines (sub_loop r Blank s count (n + 1) (fst st)) = newlines (drop (fst st) s)" .
        moreover have "newlines (drop i s)
            = newlines (slice s i (fst st)) + newlines (drop (fst st) s)"
          unfolding drop_slice[OF b] by (rule newlines_append)
        ultimately show ?thesis using False
          unfolding sub_loop_match[OF le nc Cons]
          by (simp del: sub_loop.simps add: newlines_append expand_Blank)
      qed
    qed
  qed
qed

lemma re_sub_Blank_newlines: "newlines (re_sub r Blank s count) = newlines s"
  using sub_loop_Blank[of 0 s r count 0] by (simp add: re_sub_def)

text \<open>
  C2. The substitutions without the callback do not keep the lines. The tag of
  \<open>example_tag\<close> spans two lines and is replaced by one space: of the three lines of the
  document two are left, of its two newline characters one, and the word of line 3 is
  indexed on line 2.
\<close>

theorem strip_non_prose_loses_a_line:
  "strip_non_prose example_tag = u '' '' @ [10] @ u ''sut'' \<and>
   length (splitlines example_tag) = 3 \<and>
   length (splitlines (strip_non_prose example_tag)) = 2 \<and>
   newlines example_tag = 2 \<and>
   newlines (strip_non_prose example_tag) = 1 \<and>
   word_index (strip_non_prose example_tag) = [(u ''sut'', [2])]"
proof -
  have s: "strip_non_prose example_tag = u '' '' @ [10] @ u ''sut''"
    unfolding strip_non_prose_def Let_def example_tag_def by (simp add: ev_str ev_re ev_strip)
  have i: "word_index (u '' '' @ [10] @ u ''sut'') = [(u ''sut'', [2])]"
    by (simp add: ev_str ev_re ev_words)
  have l: "length (splitlines example_tag) = 3" "newlines example_tag = 2"
    by (simp_all add: example_tag_def newlines_def ev_str)
  have l': "length (splitlines (u '' '' @ [10] @ u ''sut'')) = 2"
    "newlines (u '' '' @ [10] @ u ''sut'') = 1"
    by (simp_all add: newlines_def ev_str)
  show ?thesis unfolding s using i l l' by simp
qed

text \<open>What \<open>main\<close> can end with.\<close>

lemma main_outcome_cases:
  "snd (main env stdin) = Exit 0 [] [] \<or>
   (\<exists>path errors. errors \<noteq> [] \<and> snd (main env stdin) = Exit 2 [] (report path errors)) \<or>
   (\<exists>e. snd (main env stdin) = Uncaught e)"
  by (auto simp: main_def split: option.splits sum.splits json.splits file_state.splits
        prod.splits if_splits)

text \<open>
  C9. The run of the example on a file that cannot be decoded produces no finding and no
  call of the spell checker, and ends with an uncaught exception, which is exit status 1.
\<close>

theorem main_uncaught_on_undecodable_file:
  "main example_env_undecodable example_stdin = ([], Uncaught UnicodeDecodeError) \<and>
   exit_code (snd (main example_env_undecodable example_stdin)) = 1"
proof -
  have f: "env_files example_env_undecodable [47, 119, 47, 116, 114, 46, 109, 100]
           = Unreadable UnicodeDecodeError"
    "basename [47, 119, 47, 116, 114, 46, 109, 100] \<in> env_check_files example_env_undecodable"
    by (simp_all add: example_env_undecodable_def example_env_def basename_def u_def)
  have "main example_env_undecodable example_stdin = ([], Uncaught UnicodeDecodeError)"
    by (simp add: main_def example_stdin_def py_get_def f u_def)
  then show ?thesis by simp
qed

end
